theory Spec2Isabelle
  imports Main "HOL-Library.Word"
begin

section \<open>Data model\<close>

text \<open>
  The nine severity levels are the index constants of
  \<^verbatim>\<open>defaultColors\<close> in the console handler. Their declaration and
  their \<^verbatim>\<open>String()\<close> method live in a file of the package that is
  not modelled here, so the level names are a parameter of the formatter (see
  \<open>ext\<close> below).
\<close>

datatype Level =
  DebugLevel | TraceLevel | InfoLevel | NoticeLevel | WarnLevel
  | ErrorLevel | PanicLevel | AlertLevel | FatalLevel

text \<open>
  A field value is an \<^verbatim>\<open>interface{}\<close>; the formatter's type switch
  tells twelve dynamic types apart and sends everything else through
  \<^verbatim>\<open>fmt.Sprintf("%v", ...)\<close>. \<open>VOther\<close> carries the
  text that call renders.
\<close>

datatype FieldValue =
  VString string
  | VInt "64 word" | VInt8 "8 word" | VInt16 "16 word" | VInt32 "32 word" | VInt64 "64 word"
  | VUint "64 word" | VUint8 "8 word" | VUint16 "16 word" | VUint32 "32 word" | VUint64 "64 word"
  | VBool bool
  | VOther string

record Field =
  Key :: string
  Value :: FieldValue

record Time =
  year :: nat
  month :: nat
  day :: nat
  hour :: nat
  minute :: nat
  second :: nat

record Entry =
  Level :: Level
  Message :: string
  Fields :: "Field list"
  Timestamp :: Time
  File :: string
  Line :: "64 word"

datatype FilenameDisplay = Lshortfile | Llongfile

datatype error = SliceBoundsOutOfRange | MakechanSizeOutOfRange

type_synonym Formatter = "Entry \<Rightarrow> error + string"

text \<open>
  \<open>formatFunc\<close> is \<open>None\<close> while the console still uses its own
  \<^verbatim>\<open>defaultFormatFunc\<close> (what \<^verbatim>\<open>New\<close>
  installs) and \<open>Some fn\<close> after \<^verbatim>\<open>SetFormatFunc(fn)\<close>.
  The writer is left out: no operation modelled here reads it.
\<close>

record Console =
  buffer :: "64 word"
  numWorkers :: "64 word"
  colors :: "Level \<Rightarrow> string"
  formatFunc :: "(unit \<Rightarrow> Formatter) option"
  timestampFormat :: string
  gopath :: string
  fileDisplay :: FilenameDisplay
  displayColor :: bool

text \<open>
  What the formatter calls outside the code modelled here:
  \<^verbatim>\<open>time.Time.Format\<close>, \<^verbatim>\<open>Level.String\<close> and
  the escape sequence \<^verbatim>\<open>log.Reset\<close>.
\<close>

record ext =
  time_Format :: "Time \<Rightarrow> string \<Rightarrow> string"
  Level_String :: "Level \<Rightarrow> string"
  Reset :: string

section \<open>Console formatter\<close>

subsection \<open>\<^verbatim>\<open>strconv\<close>: base-10 rendering\<close>

definition digit_char :: "nat \<Rightarrow> char" where
  "digit_char d = ''0123456789'' ! d"

function dec_digits :: "nat \<Rightarrow> string" where
  "dec_digits n = (if n < 10 then [digit_char n] else dec_digits (n div 10) @ [digit_char (n mod 10)])"
  by pat_completeness auto
termination
  by (relation "measure (\<lambda>n. n)") auto

declare dec_digits.simps [simp del]

definition AppendUint :: "string \<Rightarrow> nat \<Rightarrow> string" where
  "AppendUint b u = b @ dec_digits u"

definition AppendInt :: "string \<Rightarrow> int \<Rightarrow> string" where
  "AppendInt b i = b @ (if i < 0 then CHR ''-'' # dec_digits (nat (- i)) else dec_digits (nat i))"

definition AppendBool :: "string \<Rightarrow> bool \<Rightarrow> string" where
  "AppendBool b v = b @ (if v then ''true'' else ''false'')"

subsection \<open>The loops of \<^verbatim>\<open>defaultFormatFunc\<close>\<close>

text \<open>\<^verbatim>\<open>for i = 0; i < 6-len(lvl); i++ { b = append(b, space) }\<close>\<close>

function pad_loop :: "int \<Rightarrow> int \<Rightarrow> string \<Rightarrow> string" where
  "pad_loop i n b = (if i < n then pad_loop (i + 1) n (b @ [CHR '' '']) else b)"
  by pat_completeness auto
termination
  by (relation "measure (\<lambda>(i, n, b). nat (n - i))") auto

declare pad_loop.simps [simp del]

text \<open>
  \<^verbatim>\<open>for i = len(file) - 1; i > 0; i-- { if file[i] == '/' { file =
  file[i+1:]; break } }\<close> The index is a Go \<^verbatim>\<open>int\<close>: it
  starts at \<open>-1\<close> on the empty string and the loop body is never entered at
  \<open>i = 0\<close>.
\<close>

function shortfile_loop :: "string \<Rightarrow> int \<Rightarrow> string" where
  "shortfile_loop file i =
     (if i > 0 then
        (if file ! nat i = CHR ''/'' then drop (nat (i + 1)) file
         else shortfile_loop file (i - 1))
      else file)"
  by pat_completeness auto
termination
  by (relation "measure (\<lambda>(file, i). nat i)") auto

declare shortfile_loop.simps [simp del]

definition shortfile :: "string \<Rightarrow> string" where
  "shortfile file = shortfile_loop file (int (length file) - 1)"

text \<open>\<^verbatim>\<open>file = file[len(c.gopath):]\<close> panics when the prefix is longer than the path.\<close>

definition longfile :: "Console \<Rightarrow> string \<Rightarrow> error + string" where
  "longfile c file =
     (if length (gopath c) \<le> length file then Inr (drop (length (gopath c)) file)
      else Inl SliceBoundsOutOfRange)"

definition display_file :: "Console \<Rightarrow> string \<Rightarrow> error + string" where
  "display_file c file =
     (if fileDisplay c = Lshortfile then Inr (shortfile file) else longfile c file)"

text \<open>The type switch on a field's value.\<close>

fun append_value :: "string \<Rightarrow> FieldValue \<Rightarrow> string" where
  "append_value b (VString s) = b @ s"
| "append_value b (VInt v) = AppendInt b (sint v)"
| "append_value b (VInt8 v) = AppendInt b (sint v)"
| "append_value b (VInt16 v) = AppendInt b (sint v)"
| "append_value b (VInt32 v) = AppendInt b (sint v)"
| "append_value b (VInt64 v) = AppendInt b (sint v)"
| "append_value b (VUint v) = AppendUint b (unat v)"
| "append_value b (VUint8 v) = AppendUint b (unat v)"
| "append_value b (VUint16 v) = AppendUint b (unat v)"
| "append_value b (VUint32 v) = AppendUint b (unat v)"
| "append_value b (VUint64 v) = AppendUint b (unat v)"
| "append_value b (VBool v) = AppendBool b v"
| "append_value b (VOther s) = b @ s"

text \<open>\<^verbatim>\<open>for _, f := range e.Fields\<close>, plain and coloured.\<close>

fun plain_fields :: "string \<Rightarrow> Field list \<Rightarrow> string" where
  "plain_fields b [] = b"
| "plain_fields b (f # fs) =
     plain_fields (append_value (b @ [CHR '' ''] @ Key f @ [CHR ''='']) (Value f)) fs"

fun color_fields :: "ext \<Rightarrow> string \<Rightarrow> string \<Rightarrow> Field list \<Rightarrow> string" where
  "color_fields x color b [] = b"
| "color_fields x color b (f # fs) =
     color_fields x color
       (append_value (b @ [CHR '' ''] @ color @ Key f @ Reset x @ [CHR ''='']) (Value f)) fs"

subsection \<open>The two formatters\<close>

definition plain_formatter :: "ext \<Rightarrow> Console \<Rightarrow> Formatter" where
  "plain_formatter x c e =
     (let lvl = Level_String x (Level e) in
      if Line e = 0 then
        (let b = time_Format x (Timestamp e) (timestampFormat c) @ [CHR '' ''];
             b = pad_loop 0 (6 - int (length lvl)) b;
             b = b @ lvl @ [CHR '' ''] @ Message e
         in Inr (plain_fields b (Fields e) @ [CHR 0x0A]))
      else
        (case display_file c (File e) of
           Inl err \<Rightarrow> Inl err
         | Inr file \<Rightarrow>
             (let b = time_Format x (Timestamp e) (timestampFormat c) @ [CHR '' ''];
                  b = pad_loop 0 (6 - int (length lvl)) b;
                  b = b @ lvl @ [CHR '' ''] @ file @ [CHR '':''];
                  b = AppendInt b (sint (Line e));
                  b = b @ [CHR '' ''] @ Message e
              in Inr (plain_fields b (Fields e) @ [CHR 0x0A]))))"

definition color_formatter :: "ext \<Rightarrow> Console \<Rightarrow> Formatter" where
  "color_formatter x c e =
     (let color = colors c (Level e); lvl = Level_String x (Level e) in
      if Line e = 0 then
        (let b = time_Format x (Timestamp e) (timestampFormat c) @ [CHR '' ''] @ color;
             b = pad_loop 0 (6 - int (length lvl)) b;
             b = b @ lvl @ Reset x @ [CHR '' ''] @ Message e
         in Inr (color_fields x color b (Fields e) @ [CHR 0x0A]))
      else
        (case display_file c (File e) of
           Inl err \<Rightarrow> Inl err
         | Inr file \<Rightarrow>
             (let b = time_Format x (Timestamp e) (timestampFormat c) @ [CHR '' ''] @ color;
                  b = pad_loop 0 (6 - int (length lvl)) b;
                  b = b @ lvl @ Reset x @ [CHR '' ''] @ file @ [CHR '':''];
                  b = AppendInt b (sint (Line e));
                  b = b @ [CHR '' ''] @ Message e
              in Inr (color_fields x color b (Fields e) @ [CHR 0x0A]))))"

definition defaultFormatFunc :: "ext \<Rightarrow> Console \<Rightarrow> unit \<Rightarrow> Formatter" where
  "defaultFormatFunc x c u = (if displayColor c then color_formatter x c else plain_formatter x c)"

text \<open>
  A concrete reading of the three outside pieces, used where a statement is evaluated on a
  fixed input. \<open>Format_chunks\<close> is the fragment of
  \<^verbatim>\<open>time.Time.Format\<close> whose layout is built from the numeric
  reference components \<^verbatim>\<open>2006\<close>, \<^verbatim>\<open>01\<close>,
  \<^verbatim>\<open>02\<close>, \<^verbatim>\<open>15\<close>,
  \<^verbatim>\<open>04\<close>, \<^verbatim>\<open>05\<close> and literal text between
  them, for a time in UTC; the layout \<^verbatim>\<open>2006-01-02T15:04:05Z\<close> lies
  in that fragment.
\<close>

definition pad_dec :: "nat \<Rightarrow> nat \<Rightarrow> string" where
  "pad_dec w n = replicate (w - length (dec_digits n)) CHR ''0'' @ dec_digits n"

function Format_chunks :: "Time \<Rightarrow> string \<Rightarrow> string" where
  "Format_chunks t layout =
     (if layout = [] then []
      else if take 4 layout = ''2006'' then pad_dec 4 (year t) @ Format_chunks t (drop 4 layout)
      else if take 2 layout = ''01'' then pad_dec 2 (month t) @ Format_chunks t (drop 2 layout)
      else if take 2 layout = ''02'' then pad_dec 2 (day t) @ Format_chunks t (drop 2 layout)
      else if take 2 layout = ''15'' then pad_dec 2 (hour t) @ Format_chunks t (drop 2 layout)
      else if take 2 layout = ''04'' then pad_dec 2 (minute t) @ Format_chunks t (drop 2 layout)
      else if take 2 layout = ''05'' then pad_dec 2 (second t) @ Format_chunks t (drop 2 layout)
      else hd layout # Format_chunks t (tl layout))"
  by pat_completeness auto
termination
  by (relation "measure (\<lambda>(t, layout). length layout)") auto

declare Format_chunks.simps [simp del]

text \<open>
  Modelled from the spec: \<^verbatim>\<open>Level.String\<close> is declared in a file of
  the package that is not modelled here. Section 8 of the spec names the Info level
  \<^verbatim>\<open>INFO\<close>; the other levels are given their tags in upper case in
  the same way.
\<close>

definition level_name :: "Level \<Rightarrow> string" where
  "level_name l =
     (case l of
        DebugLevel \<Rightarrow> ''DEBUG'' | TraceLevel \<Rightarrow> ''TRACE'' | InfoLevel \<Rightarrow> ''INFO''
      | NoticeLevel \<Rightarrow> ''NOTICE'' | WarnLevel \<Rightarrow> ''WARN'' | ErrorLevel \<Rightarrow> ''ERROR''
      | PanicLevel \<Rightarrow> ''PANIC'' | AlertLevel \<Rightarrow> ''ALERT'' | FatalLevel \<Rightarrow> ''FATAL'')"

definition ext0 :: ext where
  "ext0 = \<lparr>time_Format = Format_chunks, Level_String = level_name, Reset = [CHR 0x1B] @ ''[0m''\<rparr>"

definition T0 :: Time where
  "T0 = \<lparr>year = 2016, month = 7, day = 4, hour = 9, minute = 30, second = 5\<rparr>"

text \<open>The fixed Entry of the formatting round trip, at a timestamp \<open>T\<close>.\<close>

definition started_entry :: "Time \<Rightarrow> Entry" where
  "started_entry T =
     \<lparr>Level = InfoLevel, Message = ''started'',
      Fields = [\<lparr>Key = ''port'', Value = VInt 8080\<rparr>], Timestamp = T, File = '''', Line = 0\<rparr>"

definition plain_console :: Console where
  "plain_console =
     \<lparr>buffer = 0, numWorkers = 1, colors = (\<lambda>l. []), formatFunc = None,
      timestampFormat = ''2006-01-02T15:04:05Z'', gopath = '''', fileDisplay = Lshortfile,
      displayColor = False\<rparr>"

section \<open>The logger\<close>

text \<open>
  A handler's input channel is known by its identity: the same channel may stand in the
  routing lists of several levels. The pools are free lists
  (\<^verbatim>\<open>sync.Pool\<close> keeps no order); the trace pool, the duration
  function and the time format of the struct are read by no operation modelled here.
\<close>

type_synonym chan = nat

record logger =
  fieldPool :: "Field list"
  entryPool :: "Entry list"
  channels :: "Level \<rightharpoonup> chan list"

subsection \<open>What a call does, in program order\<close>

text \<open>
  The calls of the facade act on shared state (the completion counter, the channels, the
  pools) while handler goroutines run. A call is therefore translated to the sequence of
  its effectful operations, in the order the source performs them; the machine below
  executes such a sequence one operation at a time, interleaved with the handlers.
\<close>

datatype instr =
  WGAdd nat             \<comment> \<open>\<^verbatim>\<open>e.WG.Add(n)\<close>\<close>
  | Send chan Entry     \<comment> \<open>\<^verbatim>\<open>ch <- entry\<close>\<close>
  | WGWait              \<comment> \<open>\<^verbatim>\<open>e.WG.Wait()\<close>\<close>
  | PutField Field      \<comment> \<open>\<^verbatim>\<open>l.fieldPool.Put(f)\<close>\<close>
  | PutEntry Entry      \<comment> \<open>\<^verbatim>\<open>l.entryPool.Put(e)\<close>\<close>
  | Exit int            \<comment> \<open>\<^verbatim>\<open>exitFunc(n)\<close>\<close>
  | PanicWith string        \<comment> \<open>\<^verbatim>\<open>panic(s)\<close>\<close>
  | Println string      \<comment> \<open>\<^verbatim>\<open>stdlog.Println(s)\<close>\<close>

text \<open>
  \<^verbatim>\<open>HandleEntry\<close>: the routing table is read once; with an entry
  for the level, the counter is raised by the number of channels, one copy of the Entry is
  sent on each channel in list order, and the call waits; then every field and the Entry
  go back to the pools.
\<close>

definition HandleEntry :: "logger \<Rightarrow> Entry \<Rightarrow> instr list" where
  "HandleEntry l e =
     (case channels l (Level e) of
        Some chs \<Rightarrow> [WGAdd (length chs)] @ map (\<lambda>ch. Send ch e) chs @ [WGWait]
      | None \<Rightarrow> [])
     @ map PutField (Fields e) @ [PutEntry e]"

text \<open>\<^verbatim>\<open>sync.Pool.Get\<close> on the entry pool, whose \<^verbatim>\<open>New\<close> is \<^verbatim>\<open>new(Entry)\<close>.\<close>

definition zero_Time :: Time where
  "zero_Time = \<lparr>year = 1, month = 1, day = 1, hour = 0, minute = 0, second = 0\<rparr>"

definition zero_Entry :: Entry where
  "zero_Entry =
     \<lparr>Level = DebugLevel, Message = [], Fields = [], Timestamp = zero_Time, File = [], Line = 0\<rparr>"

definition entryPool_Get :: "logger \<Rightarrow> Entry \<times> logger" where
  "entryPool_Get l =
     (case entryPool l of [] \<Rightarrow> (zero_Entry, l) | x # xs \<Rightarrow> (x, l\<lparr>entryPool := xs\<rparr>))"

text \<open>
  Modelled from the spec: \<^verbatim>\<open>newEntry\<close> is declared in a file of the
  package that is not modelled here. Section 3 of the spec has the Entry "created by the
  Leveled Logging Facade from pooled storage, populated once" and section 4.4 has the
  facade "construct an Entry at the corresponding Level" with the message built from the
  arguments: the Entry is taken from the entry pool and its level, message, fields and
  timestamp are set.
\<close>

definition newEntry :: "Time \<Rightarrow> logger \<Rightarrow> Level \<Rightarrow> string \<Rightarrow> Field list \<Rightarrow> Entry \<times> logger" where
  "newEntry now l lvl s f =
     (case entryPool_Get l of
        (e, l') \<Rightarrow> (e\<lparr>Level := lvl, Message := s, Fields := f, Timestamp := now\<rparr>, l'))"

text \<open>
  The facade. \<open>Sprint\<close> and \<open>Sprintf\<close> stand for
  \<^verbatim>\<open>fmt.Sprint\<close> and \<^verbatim>\<open>fmt.Sprintf\<close>,
  \<open>v\<close> for the variadic arguments, \<open>now\<close> for the clock reading.
  Each call returns the logger after the Entry was taken from the pool, and the operations
  that follow. A \<^verbatim>\<open>nil\<close> slice of fields is the empty list.
\<close>

definition log_at :: "Time \<Rightarrow> logger \<Rightarrow> Level \<Rightarrow> string \<Rightarrow> logger \<times> instr list" where
  "log_at now l lvl s = (case newEntry now l lvl s [] of (e, l') \<Rightarrow> (l', HandleEntry l' e))"

definition Debug :: "('v \<Rightarrow> string) \<Rightarrow> Time \<Rightarrow> logger \<Rightarrow> 'v \<Rightarrow> logger \<times> instr list" where
  "Debug Sprint now l v = log_at now l DebugLevel (Sprint v)"

definition Info :: "('v \<Rightarrow> string) \<Rightarrow> Time \<Rightarrow> logger \<Rightarrow> 'v \<Rightarrow> logger \<times> instr list" where
  "Info Sprint now l v = log_at now l InfoLevel (Sprint v)"

definition Warn :: "('v \<Rightarrow> string) \<Rightarrow> Time \<Rightarrow> logger \<Rightarrow> 'v \<Rightarrow> logger \<times> instr list" where
  "Warn Sprint now l v = log_at now l WarnLevel (Sprint v)"

definition Error :: "('v \<Rightarrow> string) \<Rightarrow> Time \<Rightarrow> logger \<Rightarrow> 'v \<Rightarrow> logger \<times> instr list" where
  "Error Sprint now l v = log_at now l ErrorLevel (Sprint v)"



definition Panic :: "('v \<Rightarrow> string) \<Rightarrow> Time \<Rightarrow> logger \<Rightarrow> 'v \<Rightarrow> logger \<times> instr list" where
  "Panic Sprint now l v =
     (let s = Sprint v in
      case newEntry now l ErrorLevel s [] of
        (e, l') \<Rightarrow> (l', HandleEntry l' e @ [PanicWith s]))"

definition Panicf ::
  "(string \<Rightarrow> 'v \<Rightarrow> string) \<Rightarrow> Time \<Rightarrow> logger \<Rightarrow> string \<Rightarrow> 'v \<Rightarrow> logger \<times> instr list" where
  "Panicf Sprintf now l msg v =
     (let s = Sprintf msg v in
      case newEntry now l ErrorLevel s [] of
        (e, l') \<Rightarrow> (l', HandleEntry l' e @ [PanicWith s]))"

text \<open>
  \<^verbatim>\<open>WithFields\<close> returns the Entry that
  \<^verbatim>\<open>newEntry\<close> built and performs no further operation: its
  sequence of operations is empty.
\<close>

definition WithFields :: "Time \<Rightarrow> logger \<Rightarrow> Field list \<Rightarrow> Entry \<times> logger \<times> instr list" where
  "WithFields now l flds =
     (case newEntry now l InfoLevel [] flds of (e, l') \<Rightarrow> (e, l', []))"

subsection \<open>Registration\<close>

text \<open>
  \<^verbatim>\<open>for _, level := range levels\<close>: a level with no list yet gets
  an empty one, and the channel is appended.
\<close>

fun register_levels :: "(Level \<rightharpoonup> chan list) \<Rightarrow> chan \<Rightarrow> Level list \<Rightarrow> (Level \<rightharpoonup> chan list)" where
  "register_levels m ch [] = m"
| "register_levels m ch (level # levels) =
     register_levels
       (m(level \<mapsto> (case m level of None \<Rightarrow> [] | Some chs \<Rightarrow> chs) @ [ch])) ch levels"

text \<open>
  A handler is any value with a \<^verbatim>\<open>Run\<close> method; \<open>run\<close>
  is that method, from the handler's state to the channel it returns and the handler's
  state afterwards.
\<close>

definition RegisterHandler ::
  "('h \<Rightarrow> chan \<times> 'h) \<Rightarrow> 'h \<Rightarrow> logger \<Rightarrow> Level list \<Rightarrow> logger \<times> 'h" where
  "RegisterHandler run h l levels =
     (case run h of
        (ch, h') \<Rightarrow> (l\<lparr>channels := register_levels (channels l) ch levels\<rparr>, h'))"

definition routing :: "logger \<Rightarrow> Level \<Rightarrow> chan list" where
  "routing l lvl = (case channels l lvl of None \<Rightarrow> [] | Some chs \<Rightarrow> chs)"

fun sends_of :: "instr list \<Rightarrow> chan list" where
  "sends_of [] = []"
| "sends_of (Send ch e # p) = ch # sends_of p"
| "sends_of (i # p) = sends_of p"

subsection \<open>The machine\<close>

text \<open>
  The state a call runs on. \<open>wg\<close> is the completion counter of the Entry being
  dispatched; \<open>queued\<close> holds the copies that sit in channel buffers, oldest
  first, and \<open>busy\<close> the copies a handler has received and not yet
  acknowledged. \<open>trace\<close> is the history of the run, oldest event first: every
  operation of the call and every acknowledgement of a handler.

  Modelled from the spec: the declaration of \<^verbatim>\<open>Entry\<close> with its
  \<^verbatim>\<open>WG\<close> and the method \<^verbatim>\<open>Consumed\<close> are in
  a file of the package that is not modelled here. By section 4.3 of the spec the
  completion mechanism is "a shared counter/barrier associated with the original Entry,
  not the copies", and signalling decrements it whichever copy the handler processed.
\<close>

datatype event = Did instr | Consumed chan Entry

record machine =
  wg :: int
  queued :: "(chan \<times> Entry) list"
  busy :: "(chan \<times> Entry) list"
  caps :: "chan \<Rightarrow> nat"
  lgr :: logger
  exit_status :: "int option"
  panic_value :: "string option"
  trace :: "event list"

definition fresh :: "(chan \<Rightarrow> nat) \<Rightarrow> logger \<Rightarrow> machine" where
  "fresh cap l =
     \<lparr>wg = 0, queued = [], busy = [], caps = cap, lgr = l, exit_status = None,
      panic_value = None, trace = []\<rparr>"

definition chan_queue :: "machine \<Rightarrow> chan \<Rightarrow> (chan \<times> Entry) list" where
  "chan_queue s ch = filter (\<lambda>x. fst x = ch) (queued s)"

text \<open>
  One step of the machine. The call executes its next operation when that operation can
  proceed: a send needs room in the channel's buffer or a handler taking the copy at once
  (the only way on an unbuffered channel), \<^verbatim>\<open>Wait\<close> needs the
  counter at zero. A handler receives the oldest copy on its channel and, as
  \<^verbatim>\<open>handleLog\<close> does after writing, acknowledges a copy it holds.
  \<^verbatim>\<open>exitFunc\<close> ends the process: nothing steps after it. A panic
  ends the call.
\<close>

inductive step :: "instr list \<times> machine \<Rightarrow> instr list \<times> machine \<Rightarrow> bool" where
  add:
    "exit_status s = None \<Longrightarrow>
     step (WGAdd n # p, s) (p, s\<lparr>wg := wg s + int n, trace := trace s @ [Did (WGAdd n)]\<rparr>)"
| send_buffered:
    "exit_status s = None \<Longrightarrow> length (chan_queue s ch) < caps s ch \<Longrightarrow>
     step (Send ch e # p, s)
          (p, s\<lparr>queued := queued s @ [(ch, e)], trace := trace s @ [Did (Send ch e)]\<rparr>)"
| send_handoff:
    "exit_status s = None \<Longrightarrow> chan_queue s ch = [] \<Longrightarrow>
     step (Send ch e # p, s)
          (p, s\<lparr>busy := busy s @ [(ch, e)], trace := trace s @ [Did (Send ch e)]\<rparr>)"
| wait:
    "exit_status s = None \<Longrightarrow> wg s = 0 \<Longrightarrow>
     step (WGWait # p, s) (p, s\<lparr>trace := trace s @ [Did WGWait]\<rparr>)"
| put_field:
    "exit_status s = None \<Longrightarrow>
     step (PutField f # p, s)
          (p, s\<lparr>lgr := (lgr s)\<lparr>fieldPool := f # fieldPool (lgr s)\<rparr>,
                trace := trace s @ [Did (PutField f)]\<rparr>)"
| put_entry:
    "exit_status s = None \<Longrightarrow>
     step (PutEntry e # p, s)
          (p, s\<lparr>lgr := (lgr s)\<lparr>entryPool := e # entryPool (lgr s)\<rparr>,
                trace := trace s @ [Did (PutEntry e)]\<rparr>)"
| exit:
    "exit_status s = None \<Longrightarrow>
     step (Exit n # p, s) ([], s\<lparr>exit_status := Some n, trace := trace s @ [Did (Exit n)]\<rparr>)"
| panic:
    "exit_status s = None \<Longrightarrow>
     step (PanicWith v # p, s) ([], s\<lparr>panic_value := Some v, trace := trace s @ [Did (PanicWith v)]\<rparr>)"
| println:
    "exit_status s = None \<Longrightarrow>
     step (Println v # p, s) (p, s\<lparr>trace := trace s @ [Did (Println v)]\<rparr>)"
| receive:
    "exit_status s = None \<Longrightarrow> queued s = xs @ (ch, e) # ys \<Longrightarrow> ch \<notin> fst ` set xs \<Longrightarrow>
     step (p, s) (p, s\<lparr>queued := xs @ ys, busy := busy s @ [(ch, e)]\<rparr>)"
| consumed:
    "exit_status s = None \<Longrightarrow> busy s = xs @ (ch, e) # ys \<Longrightarrow>
     step (p, s)
          (p, s\<lparr>busy := xs @ ys, wg := wg s - 1, trace := trace s @ [Consumed ch e]\<rparr>)"

text \<open>A call \<open>(l', p)\<close> of the facade, started on a quiet machine.\<close>

definition start :: "(chan \<Rightarrow> nat) \<Rightarrow> logger \<times> instr list \<Rightarrow> instr list \<times> machine" where
  "start cap call = (snd call, fresh cap (fst call))"

text \<open>
  Reading a trace: the acknowledgements in it, and the operations of the call in it. On
  a sequence of operations: what its \<^verbatim>\<open>Add\<close>s put on the counter.
\<close>

fun acks :: "event list \<Rightarrow> nat" where
  "acks [] = 0"
| "acks (Consumed ch e # t) = Suc (acks t)"
| "acks (Did i # t) = acks t"

fun instrs :: "event list \<Rightarrow> instr list" where
  "instrs [] = []"
| "instrs (Did i # t) = i # instrs t"
| "instrs (Consumed ch e # t) = instrs t"

fun adds_of :: "instr list \<Rightarrow> nat" where
  "adds_of [] = 0"
| "adds_of (WGAdd n # p) = n + adds_of p"
| "adds_of (i # p) = adds_of p"

text \<open>
  The operations of the delivery (raise the counter, send, wait), the operations that can
  block, the operations that end the call abnormally, and the two reclaiming operations.
\<close>

fun is_dispatch :: "instr \<Rightarrow> bool" where
  "is_dispatch (WGAdd n) = True"
| "is_dispatch (Send ch e) = True"
| "is_dispatch WGWait = True"
| "is_dispatch i = False"

fun blocking :: "instr \<Rightarrow> bool" where
  "blocking (Send ch e) = True"
| "blocking WGWait = True"
| "blocking i = False"

fun fatal :: "instr \<Rightarrow> bool" where
  "fatal (Exit n) = True"
| "fatal (PanicWith v) = True"
| "fatal i = False"

fun is_reclaim :: "instr \<Rightarrow> bool" where
  "is_reclaim (PutField f) = True"
| "is_reclaim (PutEntry e) = True"
| "is_reclaim i = False"

text \<open>The pools after the \<^verbatim>\<open>Put\<close> operations of a sequence.\<close>

fun reclaim :: "instr list \<Rightarrow> logger \<Rightarrow> logger" where
  "reclaim [] l = l"
| "reclaim (PutField f # p) l = reclaim p (l\<lparr>fieldPool := f # fieldPool l\<rparr>)"
| "reclaim (PutEntry e # p) l = reclaim p (l\<lparr>entryPool := e # entryPool l\<rparr>)"
| "reclaim (i # p) l = reclaim p l"

text \<open>
  What holds of every configuration \<open>(p, s)\<close> that a call \<open>P\<close>,
  started on a quiet machine with logger \<open>l\<close>, can reach: the counter is what
  was added less what was acknowledged; every copy sent is acknowledged, in a buffer or
  with a handler; the pools are what the executed \<^verbatim>\<open>Put\<close>s made of
  them; the executed operations are an initial piece of \<open>P\<close> and, unless the
  call has ended abnormally, the rest is still to run; an exit is the last event and a
  panic the last operation; right after a \<^verbatim>\<open>Wait\<close> the counter is
  zero; no exit or panic was executed while the call is still running.
\<close>

definition sound :: "instr list \<Rightarrow> logger \<Rightarrow> instr list \<times> machine \<Rightarrow> bool" where
  "sound P l c =
     (case c of (p, s) \<Rightarrow>
        wg s = int (adds_of (instrs (trace s))) - int (acks (trace s))
      \<and> acks (trace s) + length (queued s) + length (busy s) = length (sends_of (instrs (trace s)))
      \<and> lgr s = reclaim (instrs (trace s)) l
      \<and> (\<exists>rest. P = instrs (trace s) @ rest \<and>
             (if exit_status s = None \<and> panic_value s = None then p = rest else p = []))
      \<and> (\<forall>n. exit_status s = Some n \<longrightarrow> trace s \<noteq> [] \<and> last (trace s) = Did (Exit n))
      \<and> (\<forall>v. panic_value s = Some v \<longrightarrow>
             instrs (trace s) \<noteq> [] \<and> last (instrs (trace s)) = PanicWith v)
      \<and> (trace s \<noteq> [] \<and> last (trace s) = Did WGWait \<longrightarrow> wg s = 0)
      \<and> (exit_status s = None \<and> panic_value s = None \<longrightarrow>
             (\<forall>i\<in>set (instrs (trace s)). \<not> fatal i)))"

text \<open>
  The trace of the run in which every handler takes its copy from the sender's hands and
  acknowledges it at once.
\<close>

definition handled_trace :: "logger \<Rightarrow> Entry \<Rightarrow> event list" where
  "handled_trace l e =
     (case channels l (Level e) of
        Some chs \<Rightarrow>
          Did (WGAdd (length chs)) # concat (map (\<lambda>ch. [Did (Send ch e), Consumed ch e]) chs)
          @ [Did WGWait]
      | None \<Rightarrow> [])
     @ map Did (map PutField (Fields e) @ [PutEntry e])"

text \<open>
  A small installation for evaluating statements: two handler channels, both unbuffered,
  the first registered for Info and Fatal, the second for Info, Error and Fatal.
\<close>

definition quiet_chans :: "chan \<Rightarrow> nat" where
  "quiet_chans ch = 0"

definition two_handlers :: logger where
  "two_handlers =
     \<lparr>fieldPool = [], entryPool = [],
      channels = [InfoLevel \<mapsto> [1, 2], ErrorLevel \<mapsto> [2], FatalLevel \<mapsto> [1, 2]]\<rparr>"

definition hello :: Entry where
  "hello =
     \<lparr>Level = InfoLevel, Message = ''hello'', Fields = [\<lparr>Key = ''ok'', Value = VBool True\<rparr>],
      Timestamp = T0, File = [], Line = 0\<rparr>"

text \<open>A handler whose state counts the calls of its Run; its channel is 7.\<close>

definition counting_run :: "nat \<Rightarrow> chan \<times> nat" where
  "counting_run n = (7, Suc n)"

text \<open>An Entry at a level nobody listens to.\<close>

definition unheard :: Entry where
  "unheard = hello\<lparr>Level := DebugLevel\<rparr>"

text \<open>
  \<^verbatim>\<open>fmt.Sprint\<close> and \<^verbatim>\<open>fmt.Sprintf\<close> on
  inputs where their result is plain: \<^verbatim>\<open>Sprint\<close> of no argument is
  the empty string and of one string is that string; \<^verbatim>\<open>Sprintf\<close> of
  a format without verbs and no argument is the format.
\<close>

definition Sprint_none :: "unit \<Rightarrow> string" where
  "Sprint_none v = []"

definition Sprint_one :: "string \<Rightarrow> string" where
  "Sprint_one v = v"

definition Sprintf_none :: "string \<Rightarrow> unit \<Rightarrow> string" where
  "Sprintf_none msg v = msg"

section \<open>The console handler's configuration and workers\<close>

text \<open>
  \<^verbatim>\<open>New\<close>: the colour table
  \<^verbatim>\<open>defaultColors\<close> is built from escape sequences declared in a
  file of the package that is not modelled here, so it is a parameter.
\<close>

definition defaultTS :: string where
  "defaultTS = ''2006-01-02T15:04:05.000000000Z07:00''"

definition New :: "(Level \<Rightarrow> string) \<Rightarrow> Console" where
  "New defaultColors =
     \<lparr>buffer = 0, numWorkers = 1, colors = defaultColors, formatFunc = None,
      timestampFormat = defaultTS, gopath = [], fileDisplay = Lshortfile,
      displayColor = True\<rparr>"

definition invalid_workers :: string where
  "invalid_workers = ''Invalid number of workers specified, setting to 1''"

text \<open>
  \<^verbatim>\<open>SetBuffersAndWorkers\<close>. Modelled from the spec: the
  package-level \<^verbatim>\<open>log.Warn\<close> it calls is in a file of the package
  that is not modelled here; by section 7 of the spec the warning is "emitted through the
  facade itself", so the call is the \<^verbatim>\<open>Warn\<close> of the default
  logger.
\<close>

definition SetBuffersAndWorkers ::
  "(string \<Rightarrow> string) \<Rightarrow> Time \<Rightarrow> logger \<Rightarrow> Console \<Rightarrow> 64 word \<Rightarrow> 64 word
   \<Rightarrow> Console \<times> logger \<times> instr list" where
  "SetBuffersAndWorkers Sprint now l c sz workers =
     (let c = c\<lparr>buffer := sz\<rparr> in
      if workers = 0 then
        (case Warn Sprint now l invalid_workers of
           (l', p) \<Rightarrow> (c\<lparr>numWorkers := 1\<rparr>, l', Println invalid_workers # p))
      else (c\<lparr>numWorkers := workers\<rparr>, l, []))"

text \<open>
  A worker goroutine \<^verbatim>\<open>c.handleLog(ch)\<close>: it obtains its formatter
  from the factory once, before its loop. Its loop (receive, format, write,
  \<^verbatim>\<open>Consumed\<close>) is the handler side of the machine above.
\<close>

record Worker =
  formatter :: Formatter

definition handleLog :: "ext \<Rightarrow> Console \<Rightarrow> Worker" where
  "handleLog x c =
     \<lparr>formatter = (case formatFunc c of None \<Rightarrow> defaultFormatFunc x c () | Some fn \<Rightarrow> fn ())\<rparr>"

text \<open>
  \<^verbatim>\<open>for i := 0; i <= int(c.numWorkers); i++ { go c.handleLog(ch)
  }\<close>. The bound is the worker count converted to a signed 64-bit
  \<^verbatim>\<open>int\<close>. The counter is an unbounded integer here: it would wrap
  only after \<open>2^63\<close> goroutines.
\<close>

function Run_loop :: "ext \<Rightarrow> Console \<Rightarrow> int \<Rightarrow> Worker list \<Rightarrow> Worker list" where
  "Run_loop x c i ws =
     (if i \<le> sint (numWorkers c) then Run_loop x c (i + 1) (ws @ [handleLog x c]) else ws)"
  by pat_completeness auto
termination
  by (relation "measure (\<lambda>(x, c, i, ws). nat (sint (numWorkers c) + 1 - i))") auto

declare Run_loop.simps [simp del]

text \<open>
  \<^verbatim>\<open>Run\<close>: \<open>env_gopath\<close> is
  \<^verbatim>\<open>os.Getenv("GOPATH")\<close> and \<open>sep\<close> is
  \<^verbatim>\<open>os.PathSeparator\<close>. \<^verbatim>\<open>make(chan *log.Entry, c.buffer)\<close>
  panics with \<^verbatim>\<open>makechan: size out of range\<close> when the size, converted to
  \<^verbatim>\<open>int\<close>, is negative or exceeds what the runtime can allocate;
  \<open>max_chan\<close> is the largest capacity the runtime accepts for this element type on
  the platform. The panic comes after the pre-setup and before any worker is started.
  Otherwise the result is the console, the capacity of the channel made, and the workers
  started.
\<close>

definition Run ::
  "ext \<Rightarrow> string \<Rightarrow> char \<Rightarrow> nat \<Rightarrow> Console \<Rightarrow> error + Console \<times> nat \<times> Worker list" where
  "Run x env_gopath sep max_chan c =
     (let c = (if fileDisplay c = Llongfile then
                 (let c = c\<lparr>gopath := env_gopath\<rparr> in
                  if length (gopath c) \<noteq> 0 then c\<lparr>gopath := gopath c @ [sep] @ ''src'' @ [sep]\<rparr>
                  else c)
               else c)
      in if sint (buffer c) < 0 \<or> max_chan < unat (buffer c) then Inl MakechanSizeOutOfRange
         else Inr (c, unat (buffer c), Run_loop x c 0 []))"

section \<open>Runs of the machine\<close>

subsection \<open>Invariants\<close>

lemma instrs_append [simp]: "instrs (t1 @ t2) = instrs t1 @ instrs t2"
  by (induction t1 rule: instrs.induct) auto

lemma acks_append [simp]: "acks (t1 @ t2) = acks t1 + acks t2"
  by (induction t1 rule: acks.induct) auto

lemma adds_of_append [simp]: "adds_of (p1 @ p2) = adds_of p1 + adds_of p2"
  by (induction p1 rule: adds_of.induct) auto

lemma sends_of_append [simp]: "sends_of (p1 @ p2) = sends_of p1 @ sends_of p2"
  by (induction p1 rule: sends_of.induct) auto

lemma reclaim_append [simp]: "reclaim (p1 @ p2) l = reclaim p2 (reclaim p1 l)"
  by (induction p1 l rule: reclaim.induct) auto

lemma sound_fresh: "sound P l (P, fresh cap l)"
  by (simp add: sound_def fresh_def)

lemma sound_step: "step c c' \<Longrightarrow> sound P l c \<Longrightarrow> sound P l c'"
  by (induction rule: step.induct) (auto simp: sound_def split: if_splits)

lemma sound_reachable: "rtranclp step c c' \<Longrightarrow> sound P l c \<Longrightarrow> sound P l c'"
  by (induction rule: rtranclp_induct) (auto intro: sound_step)

lemma step_trace:
  "step c c' \<Longrightarrow> trace (snd c') = trace (snd c) \<or> (\<exists>ev. trace (snd c') = trace (snd c) @ [ev])"
  by (induction rule: step.induct) auto

lemma prefix_reachable:
  "rtranclp step c0 c \<Longrightarrow> trace (snd c0) = [] \<Longrightarrow> trace (snd c) = pre @ post \<Longrightarrow>
   \<exists>c1. rtranclp step c0 c1 \<and> trace (snd c1) = pre"
proof (induction arbitrary: post rule: rtranclp_induct)
  case base
  then have "rtranclp step c0 c0 \<and> trace (snd c0) = pre" by simp
  then show ?case by blast
next
  case (step c1 c2)
  from step_trace [OF step.hyps(2)]
  show ?case
  proof
    assume "trace (snd c2) = trace (snd c1)"
    then show ?thesis using step.IH [of post] step.prems by simp
  next
    assume "\<exists>ev. trace (snd c2) = trace (snd c1) @ [ev]"
    then obtain ev where ev: "trace (snd c2) = trace (snd c1) @ [ev]" ..
    show ?thesis
    proof (cases post rule: rev_cases)
      case Nil
      then have "trace (snd c2) = pre" using step.prems by simp
      moreover have "rtranclp step c0 c2" using step.hyps by auto
      ultimately show ?thesis by blast
    next
      case (snoc post' x)
      then have "trace (snd c1) = pre @ post'" using step.prems ev by simp
      then show ?thesis using step.IH [of post'] step.prems by simp
    qed
  qed
qed


lemma instrs_split:
  "instrs t = xs @ i # ys \<Longrightarrow> \<exists>t1 t2. t = t1 @ Did i # t2 \<and> instrs t1 = xs \<and> instrs t2 = ys"
proof (induction t arbitrary: xs rule: instrs.induct)
  case 1
  then show ?case by simp
next
  case (2 j t)
  show ?case
  proof (cases xs)
    case Nil
    then have "Did j # t = [] @ Did i # t \<and> instrs [] = xs \<and> instrs t = ys"
      using "2.prems" by simp
    then show ?thesis by blast
  next
    case (Cons x xs')
    then have "instrs t = xs' @ i # ys" and x: "x = j" using "2.prems" by simp_all
    then obtain t1 t2 where "t = t1 @ Did i # t2 \<and> instrs t1 = xs' \<and> instrs t2 = ys"
      using "2.IH" by blast
    then have "Did j # t = (Did j # t1) @ Did i # t2 \<and> instrs (Did j # t1) = xs \<and> instrs t2 = ys"
      using Cons x by simp
    then show ?thesis by blast
  qed
next
  case (3 ch e t)
  then have "instrs t = xs @ i # ys" by simp
  then obtain t1 t2 where "t = t1 @ Did i # t2 \<and> instrs t1 = xs \<and> instrs t2 = ys"
    using "3.IH" by blast
  then have "Consumed ch e # t = (Consumed ch e # t1) @ Did i # t2
      \<and> instrs (Consumed ch e # t1) = xs \<and> instrs t2 = ys"
    by simp
  then show ?case by blast
qed

lemma beyond_prefix:
  assumes "A @ B = xs @ i # rest" and "\<forall>a\<in>set A. Q a" and "\<not> Q i"
  shows "\<exists>ys. xs = A @ ys"
proof -
  from assms(1) obtain us where
    "(A = xs @ us \<and> us @ B = i # rest) \<or> (A @ us = xs \<and> B = us @ i # rest)"
    by (auto simp: append_eq_append_conv2)
  then show ?thesis
  proof
    assume h: "A = xs @ us \<and> us @ B = i # rest"
    show ?thesis
    proof (cases us)
      case Nil
      then show ?thesis using h by simp
    next
      case (Cons u us')
      then have "i \<in> set A" using h by simp
      then show ?thesis using assms(2,3) by blast
    qed
  next
    assume "A @ us = xs \<and> B = us @ i # rest"
    then show ?thesis by blast
  qed
qed

lemma sends_of_quiet: "\<forall>i\<in>set p. \<not> is_dispatch i \<Longrightarrow> sends_of p = []"
  by (induction p rule: sends_of.induct) auto

lemma sends_of_Send [simp]: "sends_of (map (\<lambda>ch. Send ch e) chs) = chs"
  by (induction chs) auto

lemma sends_of_PutField [simp]: "sends_of (map PutField fs) = []"
  by (induction fs) auto

lemma adds_of_Send [simp]: "adds_of (map (\<lambda>ch. Send ch e) chs) = 0"
  by (induction chs) auto

lemma sends_of_HandleEntry: "sends_of (HandleEntry l e) = routing l (Level e)"
  by (simp add: HandleEntry_def routing_def split: option.splits)

lemma acks_bound:
  assumes reach: "rtranclp step (HandleEntry l e @ tail, fresh cap l) (p, s)"
    and tail: "\<forall>i\<in>set tail. \<not> is_dispatch i"
  shows "acks (trace s) + length (queued s) + length (busy s) \<le> length (routing l (Level e))"
proof -
  have "sound (HandleEntry l e @ tail) l (p, s)"
    using sound_reachable [OF reach sound_fresh] .
  then obtain rest where
    a: "acks (trace s) + length (queued s) + length (busy s) = length (sends_of (instrs (trace s)))"
    and b: "HandleEntry l e @ tail = instrs (trace s) @ rest"
    by (auto simp: sound_def)
  have "sends_of (HandleEntry l e @ tail) = routing l (Level e)"
    using tail by (simp add: sends_of_HandleEntry sends_of_quiet)
  then have "routing l (Level e) = sends_of (instrs (trace s)) @ sends_of rest"
    using b by simp
  then have "length (sends_of (instrs (trace s))) \<le> length (routing l (Level e))" by simp
  then show ?thesis using a by simp
qed

lemma barrier:
  assumes reach: "rtranclp step (HandleEntry l e @ tail, fresh cap l) (p, s)"
    and tail: "\<forall>i\<in>set tail. \<not> is_dispatch i"
    and split: "trace s = pre @ Did i # post"
    and i: "\<not> is_dispatch i"
  shows "acks pre = length (routing l (Level e))"
proof -
  let ?P = "HandleEntry l e @ tail"
  let ?c0 = "(?P, fresh cap l)"
  have t0: "trace (snd ?c0) = []" by (simp add: fresh_def)
  have s1: "trace (snd (p, s)) = pre @ (Did i # post)" using split by simp
  obtain c1 where c1: "rtranclp step ?c0 c1" "trace (snd c1) = pre"
    using prefix_reachable [OF reach t0 s1] by blast
  have "acks (trace (snd c1)) + length (queued (snd c1)) + length (busy (snd c1))
      \<le> length (routing l (Level e))"
    using acks_bound [of l e tail cap "fst c1" "snd c1"] c1(1) tail by simp
  then have upper: "acks pre \<le> length (routing l (Level e))" using c1(2) by simp
  have s2: "trace (snd (p, s)) = (pre @ [Did i]) @ post" using split by simp
  obtain c2 where c2: "rtranclp step ?c0 c2" "trace (snd c2) = pre @ [Did i]"
    using prefix_reachable [OF reach t0 s2] by blast
  have "sound ?P l c2" using sound_reachable [OF c2(1) sound_fresh] .
  then obtain rest where P: "?P = instrs pre @ i # rest"
    using c2(2) by (cases c2) (auto simp: sound_def)
  show ?thesis
  proof (cases "channels l (Level e)")
    case None
    then show ?thesis using upper by (simp add: routing_def)
  next
    case (Some chs)
    let ?A = "WGAdd (length chs) # map (\<lambda>ch. Send ch e) chs @ [WGWait]"
    have K: "routing l (Level e) = chs" using Some by (simp add: routing_def)
    have "?A @ (map PutField (Fields e) @ [PutEntry e] @ tail) = instrs pre @ i # rest"
      using P Some by (simp add: HandleEntry_def)
    moreover have "\<forall>a\<in>set ?A. is_dispatch a" by auto
    ultimately obtain ys where "instrs pre = ?A @ ys"
      using beyond_prefix [of ?A _ "instrs pre" i rest is_dispatch] i by blast
    then have "instrs pre = (WGAdd (length chs) # map (\<lambda>ch. Send ch e) chs) @ WGWait # ys"
      by simp
    then obtain t1 t2 where t: "pre = t1 @ Did WGWait # t2"
      "instrs t1 = WGAdd (length chs) # map (\<lambda>ch. Send ch e) chs"
      using instrs_split by blast
    have s3: "trace (snd (p, s)) = (t1 @ [Did WGWait]) @ (t2 @ Did i # post)"
      using split t(1) by simp
    obtain c3 where c3: "rtranclp step ?c0 c3" "trace (snd c3) = t1 @ [Did WGWait]"
      using prefix_reachable [OF reach t0 s3] by blast
    have "sound ?P l c3" using sound_reachable [OF c3(1) sound_fresh] .
    then have "int (adds_of (instrs (t1 @ [Did WGWait]))) - int (acks (t1 @ [Did WGWait])) = 0"
      using c3(2) by (cases c3) (auto simp: sound_def)
    then have "acks t1 = length chs" using t(2) by simp
    then have "length chs \<le> acks pre" using t(1) by simp
    then show ?thesis using upper K by simp
  qed
qed

subsection \<open>A run to completion\<close>

lemma send_cycles:
  "exit_status s = None \<Longrightarrow> queued s = [] \<Longrightarrow>
   rtranclp step (map (\<lambda>ch. Send ch e) chs @ rest, s)
     (rest, s\<lparr>wg := wg s - int (length chs),
              trace := trace s @ concat (map (\<lambda>ch. [Did (Send ch e), Consumed ch e]) chs)\<rparr>)"
proof (induction chs arbitrary: s)
  case Nil
  then show ?case by simp
next
  case (Cons ch chs)
  let ?s1 = "s\<lparr>busy := busy s @ [(ch, e)], trace := trace s @ [Did (Send ch e)]\<rparr>"
  let ?s2 = "s\<lparr>wg := wg s - 1, trace := trace s @ [Did (Send ch e), Consumed ch e]\<rparr>"
  let ?p = "map (\<lambda>ch. Send ch e) chs @ rest"
  have q: "chan_queue s ch = []" using Cons.prems by (simp add: chan_queue_def)
  have a: "step (Send ch e # ?p, s) (?p, ?s1)"
    using step.send_handoff [OF Cons.prems(1) q] .
  have "step (?p, ?s1)
     (?p, ?s1\<lparr>busy := busy s @ [], wg := wg ?s1 - 1, trace := trace ?s1 @ [Consumed ch e]\<rparr>)"
    by (rule step.consumed) (use Cons.prems in simp_all)
  then have b: "step (?p, ?s1) (?p, ?s2)" by simp
  have "rtranclp step (?p, ?s2)
     (rest, ?s2\<lparr>wg := wg ?s2 - int (length chs),
                trace := trace ?s2 @ concat (map (\<lambda>ch. [Did (Send ch e), Consumed ch e]) chs)\<rparr>)"
    by (rule Cons.IH) (use Cons.prems in simp_all)
  moreover have "?s2\<lparr>wg := wg ?s2 - int (length chs),
                trace := trace ?s2 @ concat (map (\<lambda>ch. [Did (Send ch e), Consumed ch e]) chs)\<rparr>
      = s\<lparr>wg := wg s - int (length (ch # chs)),
              trace := trace s @ concat (map (\<lambda>ch. [Did (Send ch e), Consumed ch e]) (ch # chs))\<rparr>"
    by simp
  ultimately have c: "rtranclp step (?p, ?s2)
     (rest, s\<lparr>wg := wg s - int (length (ch # chs)),
              trace := trace s @ concat (map (\<lambda>ch. [Did (Send ch e), Consumed ch e]) (ch # chs))\<rparr>)"
    by (simp only:)
  have "rtranclp step (Send ch e # ?p, s) (?p, ?s2)" using a b by auto
  then show ?case using c by simp
qed

lemma puts_run:
  "exit_status s = None \<Longrightarrow> \<forall>i\<in>set p. is_reclaim i \<Longrightarrow>
   rtranclp step (p @ rest, s) (rest, s\<lparr>lgr := reclaim p (lgr s), trace := trace s @ map Did p\<rparr>)"
proof (induction p arbitrary: s)
  case Nil
  then show ?case by simp
next
  case (Cons i p)
  show ?case
  proof (cases i)
    case (PutField f)
    let ?s1 = "s\<lparr>lgr := (lgr s)\<lparr>fieldPool := f # fieldPool (lgr s)\<rparr>,
                   trace := trace s @ [Did (PutField f)]\<rparr>"
    have a: "step (PutField f # p @ rest, s) (p @ rest, ?s1)"
      using step.put_field [OF Cons.prems(1)] .
    have "rtranclp step (p @ rest, ?s1)
       (rest, ?s1\<lparr>lgr := reclaim p (lgr ?s1), trace := trace ?s1 @ map Did p\<rparr>)"
      by (rule Cons.IH) (use Cons.prems in simp_all)
    then have "rtranclp step (p @ rest, ?s1)
       (rest, s\<lparr>lgr := reclaim (i # p) (lgr s), trace := trace s @ map Did (i # p)\<rparr>)"
      using PutField by simp
    then show ?thesis using a PutField by auto
  next
    case (PutEntry x)
    let ?s1 = "s\<lparr>lgr := (lgr s)\<lparr>entryPool := x # entryPool (lgr s)\<rparr>,
                   trace := trace s @ [Did (PutEntry x)]\<rparr>"
    have a: "step (PutEntry x # p @ rest, s) (p @ rest, ?s1)"
      using step.put_entry [OF Cons.prems(1)] .
    have "rtranclp step (p @ rest, ?s1)
       (rest, ?s1\<lparr>lgr := reclaim p (lgr ?s1), trace := trace ?s1 @ map Did p\<rparr>)"
      by (rule Cons.IH) (use Cons.prems in simp_all)
    then have "rtranclp step (p @ rest, ?s1)
       (rest, s\<lparr>lgr := reclaim (i # p) (lgr s), trace := trace s @ map Did (i # p)\<rparr>)"
      using PutEntry by simp
    then show ?thesis using a PutEntry by auto
  qed (use Cons.prems in simp_all)
qed

lemma reclaim_quiet: "\<forall>i\<in>set p. \<not> is_reclaim i \<Longrightarrow> reclaim p l = l"
  by (induction p l rule: reclaim.induct) auto

lemma reclaim_PutField:
  "reclaim (map PutField fs) l = l\<lparr>fieldPool := rev fs @ fieldPool l\<rparr>"
  by (induction fs arbitrary: l) auto

lemma reclaim_HandleEntry:
  "reclaim (HandleEntry l e) l0 =
     l0\<lparr>fieldPool := rev (Fields e) @ fieldPool l0, entryPool := e # entryPool l0\<rparr>"
proof -
  have a: "reclaim (map (\<lambda>ch. Send ch e) chs) l0 = l0" for chs
    by (rule reclaim_quiet) auto
  show ?thesis
    by (simp add: HandleEntry_def reclaim_PutField a split: option.splits)
qed

lemma dispatch_run:
  assumes "exit_status s = None" and "wg s = 0" and "queued s = []"
  shows "rtranclp step (HandleEntry l e @ rest, s)
     (rest, s\<lparr>lgr := reclaim (HandleEntry l e) (lgr s), trace := trace s @ handled_trace l e\<rparr>)"
proof -
  let ?puts = "map PutField (Fields e) @ [PutEntry e]"
  have puts: "\<forall>i\<in>set ?puts. is_reclaim i" by auto
  show ?thesis
  proof (cases "channels l (Level e)")
    case None
    have "rtranclp step (?puts @ rest, s)
      (rest, s\<lparr>lgr := reclaim ?puts (lgr s), trace := trace s @ map Did ?puts\<rparr>)"
      using puts_run [OF assms(1) puts] .
    then show ?thesis using None by (simp add: HandleEntry_def handled_trace_def)
  next
    case (Some chs)
    let ?K = "length chs"
    let ?cyc = "concat (map (\<lambda>ch. [Did (Send ch e), Consumed ch e]) chs)"
    let ?p1 = "map (\<lambda>ch. Send ch e) chs @ WGWait # ?puts @ rest"
    let ?s1 = "s\<lparr>wg := wg s + int ?K, trace := trace s @ [Did (WGAdd ?K)]\<rparr>"
    let ?s2 = "s\<lparr>trace := trace s @ Did (WGAdd ?K) # ?cyc\<rparr>"
    let ?s3 = "s\<lparr>trace := trace s @ Did (WGAdd ?K) # ?cyc @ [Did WGWait]\<rparr>"
    have a: "step (WGAdd ?K # ?p1, s) (?p1, ?s1)" using step.add [OF assms(1)] .
    have "rtranclp step (?p1, ?s1)
       (WGWait # ?puts @ rest, ?s1\<lparr>wg := wg ?s1 - int ?K, trace := trace ?s1 @ ?cyc\<rparr>)"
      by (rule send_cycles) (use assms in simp_all)
    moreover have "?s1\<lparr>wg := wg ?s1 - int ?K, trace := trace ?s1 @ ?cyc\<rparr> = ?s2"
      using assms(2) by (cases s) simp
    ultimately have b: "rtranclp step (?p1, ?s1) (WGWait # ?puts @ rest, ?s2)"
      by (simp only:)
    have "step (WGWait # ?puts @ rest, ?s2) (?puts @ rest, ?s2\<lparr>trace := trace ?s2 @ [Did WGWait]\<rparr>)"
      by (rule step.wait) (use assms in simp_all)
    then have c: "step (WGWait # ?puts @ rest, ?s2) (?puts @ rest, ?s3)" by simp
    have "rtranclp step (?puts @ rest, ?s3)
       (rest, ?s3\<lparr>lgr := reclaim ?puts (lgr ?s3), trace := trace ?s3 @ map Did ?puts\<rparr>)"
      by (rule puts_run) (use assms in simp_all)
    moreover have "reclaim (HandleEntry l e) (lgr s) = reclaim ?puts (lgr s)"
      by (simp add: reclaim_HandleEntry reclaim_PutField)
    ultimately have d: "rtranclp step (?puts @ rest, ?s3)
       (rest, s\<lparr>lgr := reclaim (HandleEntry l e) (lgr s), trace := trace s @ handled_trace l e\<rparr>)"
      using Some by (simp add: handled_trace_def)
    have "rtranclp step (WGAdd ?K # ?p1, s) (?puts @ rest, ?s3)"
      using a b c by (meson rtranclp.rtrancl_into_rtrancl converse_rtranclp_into_rtranclp)
    then have "rtranclp step (WGAdd ?K # ?p1, s)
       (rest, s\<lparr>lgr := reclaim (HandleEntry l e) (lgr s), trace := trace s @ handled_trace l e\<rparr>)"
      using d by (rule rtranclp_trans)
    then show ?thesis using Some by (simp add: HandleEntry_def)
  qed
qed

subsection \<open>Reading a trace\<close>

lemma Did_in_trace: "i \<in> set (instrs t) \<Longrightarrow> \<exists>pre post. t = pre @ Did i # post"
proof -
  assume "i \<in> set (instrs t)"
  then obtain xs ys where "instrs t = xs @ i # ys" by (auto simp: in_set_conv_decomp)
  then show ?thesis using instrs_split by blast
qed

lemma instrs_set: "i \<in> set (instrs t) \<Longrightarrow> Did i \<in> set t"
  using Did_in_trace by fastforce

lemma reclaim_changed: "reclaim p l \<noteq> l \<Longrightarrow> \<exists>i\<in>set p. is_reclaim i"
  using reclaim_quiet by blast

lemma not_stopped:
  assumes reach: "rtranclp step (P, fresh cap l) (q, s)" and P: "\<forall>i\<in>set P. \<not> fatal i"
  shows "exit_status s = None \<and> panic_value s = None"
proof -
  have snd: "sound P l (q, s)" using sound_reachable [OF reach sound_fresh] .
  then obtain rest where r: "P = instrs (trace s) @ rest" by (auto simp: sound_def)
  have "exit_status s = None"
  proof (rule ccontr)
    assume "exit_status s \<noteq> None"
    then obtain n where "exit_status s = Some n" by blast
    then have "trace s \<noteq> [] \<and> last (trace s) = Did (Exit n)" using snd by (simp add: sound_def)
    then have "trace s = butlast (trace s) @ [Did (Exit n)]"
      using append_butlast_last_id [of "trace s"] by simp
    then have "instrs (trace s) = instrs (butlast (trace s)) @ [Exit n]"
      using instrs_append [of "butlast (trace s)" "[Did (Exit n)]"] by simp
    then have "Exit n \<in> set P" using r by simp
    then show False using P by fastforce
  qed
  moreover have "panic_value s = None"
  proof (rule ccontr)
    assume "panic_value s \<noteq> None"
    then obtain v where "panic_value s = Some v" by blast
    then have "instrs (trace s) \<noteq> [] \<and> last (instrs (trace s)) = PanicWith v"
      using snd by (simp add: sound_def)
    then have "PanicWith v \<in> set (instrs (trace s))" using last_in_set by metis
    then have "PanicWith v \<in> set P" using r by simp
    then show False using P by fastforce
  qed
  ultimately show ?thesis by simp
qed

lemma instrs_last: "t \<noteq> [] \<Longrightarrow> last t = Did i \<Longrightarrow> instrs t \<noteq> [] \<and> last (instrs t) = i"
proof -
  assume "t \<noteq> []" "last t = Did i"
  then have "t = butlast t @ [Did i]" using append_butlast_last_id [of t] by simp
  then have "instrs t = instrs (butlast t) @ [i]"
    using instrs_append [of "butlast t" "[Did i]"] by simp
  then show ?thesis by simp
qed

subsection \<open>After the dispatch\<close>

lemma last_unique:
  assumes "xs @ a # rest = H @ [b]" and "a \<notin> set H"
  shows "xs = H \<and> a = b \<and> rest = []"
proof (cases rest rule: rev_cases)
  case Nil
  then show ?thesis using assms(1) by simp
next
  case (snoc rs r)
  then have "(xs @ a # rs) @ [r] = H @ [b]" using assms(1) by simp
  then have "xs @ a # rs = H" by (simp only: append1_eq_conv)
  then have "a \<in> set H" by auto
  then show ?thesis using assms(2) by simp
qed

lemma HandleEntry_not_fatal: "\<forall>i\<in>set (HandleEntry l e). \<not> fatal i"
  by (auto simp: HandleEntry_def split: option.splits)

lemma newEntry_result:
  "newEntry now l lvl s f = (e, l') \<Longrightarrow>
   Level e = lvl \<and> Message e = s \<and> Fields e = f \<and> Timestamp e = now
   \<and> channels l' = channels l \<and> fieldPool l' = fieldPool l"
  by (auto simp: newEntry_def entryPool_Get_def split: list.splits prod.splits)

lemma after_dispatch:
  assumes reach: "rtranclp step (HandleEntry l e @ [i], fresh cap l) (q, s)"
    and i: "fatal i" and last: "instrs (trace s) \<noteq> []" "fatal (last (instrs (trace s)))"
  shows "\<exists>pre post. trace s = pre @ Did i # post \<and> instrs pre = HandleEntry l e
         \<and> instrs post = [] \<and> acks pre = length (routing l (Level e))
         \<and> queued s = [] \<and> busy s = []"
proof -
  let ?P = "HandleEntry l e @ [i]"
  have nd: "\<forall>j\<in>set [i]. \<not> is_dispatch j" using i by (cases i) simp_all
  have "sound ?P l (q, s)" using sound_reachable [OF reach sound_fresh] .
  then obtain rest where r: "?P = instrs (trace s) @ rest" by (auto simp: sound_def)
  obtain xs a where xa: "instrs (trace s) = xs @ [a]" "fatal a"
    using last append_butlast_last_id [of "instrs (trace s)"] by metis
  have "a \<notin> set (HandleEntry l e)" using xa(2) HandleEntry_not_fatal by blast
  moreover have "xs @ a # rest = HandleEntry l e @ [i]" using r xa(1) by simp
  ultimately have u: "xs = HandleEntry l e \<and> a = i \<and> rest = []" by (rule last_unique [rotated])
  then have "instrs (trace s) = HandleEntry l e @ i # []" using xa(1) by simp
  then obtain pre post where t: "trace s = pre @ Did i # post"
    "instrs pre = HandleEntry l e" "instrs post = []"
    using instrs_split by blast
  have "\<not> is_dispatch i" using i by (cases i) simp_all
  then have a: "acks pre = length (routing l (Level e))"
    using barrier [OF reach nd t(1)] by simp
  then have "length (routing l (Level e)) \<le> acks (trace s)" using t(1) by simp
  moreover have "acks (trace s) + length (queued s) + length (busy s) \<le> length (routing l (Level e))"
    using acks_bound [OF reach nd] .
  ultimately have "length (queued s) = 0 \<and> length (busy s) = 0" by linarith
  then show ?thesis using t a by auto
qed


lemma Panic_shape:
  assumes "(call, m) = (Panic Sprint now l v, Sprint v)
         \<or> (call, m) = (Panicf Sprintf now l msg v, Sprintf msg v)"
  shows "\<exists>e. snd call = HandleEntry (fst call) e @ [PanicWith m] \<and> Level e = ErrorLevel
             \<and> Message e = m \<and> Fields e = [] \<and> channels (fst call) = channels l"
proof -
  obtain e l' where n: "newEntry now l ErrorLevel m [] = (e, l')" by (cases "newEntry now l ErrorLevel m []")
  have "call = (l', HandleEntry l' e @ [PanicWith m])"
    using assms n by (auto simp: Panic_def Panicf_def Let_def)
  then show ?thesis using newEntry_result [OF n] by auto
qed

subsection \<open>The call can always be completed\<close>

text \<open>
  Handlers that take their copies and acknowledge them let the call go on from any state:
  first the copies in the buffers and with the handlers are drained, then each remaining
  send is taken from the sender's hands and acknowledged.
\<close>

lemma drain_queue:
  "exit_status s = None \<Longrightarrow> queued s = xs \<Longrightarrow>
   rtranclp step (q, s) (q, s\<lparr>queued := [], busy := busy s @ xs\<rparr>)"
proof (induction xs arbitrary: s)
  case Nil
  then have "s\<lparr>queued := [], busy := busy s @ []\<rparr> = s" by (cases s) simp
  then show ?case by simp
next
  case (Cons x xs)
  obtain ch e where x: "x = (ch, e)" by (cases x)
  let ?s1 = "s\<lparr>queued := [] @ xs, busy := busy s @ [(ch, e)]\<rparr>"
  have "step (q, s) (q, ?s1)"
    by (rule step.receive) (use Cons.prems x in simp_all)
  moreover have "rtranclp step (q, ?s1) (q, ?s1\<lparr>queued := [], busy := busy ?s1 @ xs\<rparr>)"
    by (rule Cons.IH) (use Cons.prems in simp_all)
  moreover have "?s1\<lparr>queued := [], busy := busy ?s1 @ xs\<rparr> = s\<lparr>queued := [], busy := busy s @ x # xs\<rparr>"
    using x by simp
  ultimately show ?case by (simp only: converse_rtranclp_into_rtranclp)
qed

lemma drain_busy:
  "exit_status s = None \<Longrightarrow> busy s = xs \<Longrightarrow>
   rtranclp step (q, s)
     (q, s\<lparr>busy := [], wg := wg s - int (length xs),
           trace := trace s @ map (\<lambda>x. Consumed (fst x) (snd x)) xs\<rparr>)"
proof (induction xs arbitrary: s)
  case Nil
  then have "s\<lparr>busy := [], wg := wg s - int (length ([] :: (chan \<times> Entry) list)),
        trace := trace s @ map (\<lambda>x. Consumed (fst x) (snd x)) []\<rparr> = s"
    by (cases s) simp
  then show ?case by simp
next
  case (Cons x xs)
  obtain ch e where x: "x = (ch, e)" by (cases x)
  let ?s1 = "s\<lparr>busy := [] @ xs, wg := wg s - 1, trace := trace s @ [Consumed ch e]\<rparr>"
  have "step (q, s) (q, ?s1)"
    by (rule step.consumed) (use Cons.prems x in simp_all)
  moreover have "rtranclp step (q, ?s1)
     (q, ?s1\<lparr>busy := [], wg := wg ?s1 - int (length xs),
             trace := trace ?s1 @ map (\<lambda>x. Consumed (fst x) (snd x)) xs\<rparr>)"
    by (rule Cons.IH) (use Cons.prems in simp_all)
  moreover have "?s1\<lparr>busy := [], wg := wg ?s1 - int (length xs),
             trace := trace ?s1 @ map (\<lambda>x. Consumed (fst x) (snd x)) xs\<rparr>
     = s\<lparr>busy := [], wg := wg s - int (length (x # xs)),
           trace := trace s @ map (\<lambda>x. Consumed (fst x) (snd x)) (x # xs)\<rparr>"
    using x by simp
  ultimately show ?case by (simp only: converse_rtranclp_into_rtranclp)
qed

lemma drain:
  assumes "exit_status s = None"
  shows "\<exists>s'. rtranclp step (q, s) (q, s') \<and> queued s' = [] \<and> busy s' = []
            \<and> exit_status s' = None \<and> panic_value s' = panic_value s"
proof -
  let ?s1 = "s\<lparr>queued := [], busy := busy s @ queued s\<rparr>"
  let ?s2 = "?s1\<lparr>busy := [], wg := wg ?s1 - int (length (busy ?s1)),
           trace := trace ?s1 @ map (\<lambda>x. Consumed (fst x) (snd x)) (busy ?s1)\<rparr>"
  have "rtranclp step (q, s) (q, ?s1)" using drain_queue [OF assms] by simp
  moreover have "rtranclp step (q, ?s1) (q, ?s2)"
    by (rule drain_busy) (use assms in simp_all)
  ultimately have "rtranclp step (q, s) (q, ?s2)" by (rule rtranclp_trans)
  moreover have "queued ?s2 = [] \<and> busy ?s2 = [] \<and> exit_status ?s2 = None
      \<and> panic_value ?s2 = panic_value s"
    using assms by simp
  ultimately show ?thesis by blast
qed

lemma cooperative_run:
  assumes "exit_status s = None" and "panic_value s = None" and "queued s = []"
    and "\<forall>a b. q = a @ WGWait # b \<longrightarrow> wg s + int (adds_of a) = int (length (sends_of a))"
  shows "\<exists>s'. rtranclp step (q, s) ([], s')
            \<and> (\<forall>r n. q = r @ [Exit n] \<and> (\<forall>j\<in>set r. \<not> fatal j) \<longrightarrow> exit_status s' = Some n)
            \<and> (\<forall>r m. q = r @ [PanicWith m] \<and> (\<forall>j\<in>set r. \<not> fatal j) \<longrightarrow>
                  panic_value s' = Some m)"
  using assms
proof (induction q arbitrary: s)
  case Nil
  then show ?case by auto
next
  case (Cons i q)
  have tail_goal: "\<exists>s'. rtranclp step (i # q, s) ([], s')
            \<and> (\<forall>r n. i # q = r @ [Exit n] \<and> (\<forall>j\<in>set r. \<not> fatal j) \<longrightarrow> exit_status s' = Some n)
            \<and> (\<forall>r m. i # q = r @ [PanicWith m] \<and> (\<forall>j\<in>set r. \<not> fatal j) \<longrightarrow>
                  panic_value s' = Some m)"
    if st: "rtranclp step (i # q, s) (q, s1)" and nf: "\<not> fatal i"
      and s1: "exit_status s1 = None" "panic_value s1 = None" "queued s1 = []"
      "\<forall>a b. q = a @ WGWait # b \<longrightarrow> wg s1 + int (adds_of a) = int (length (sends_of a))"
    for s1
  proof -
    obtain s' where s': "rtranclp step (q, s1) ([], s')"
      "\<forall>r n. q = r @ [Exit n] \<and> (\<forall>j\<in>set r. \<not> fatal j) \<longrightarrow> exit_status s' = Some n"
      "\<forall>r m. q = r @ [PanicWith m] \<and> (\<forall>j\<in>set r. \<not> fatal j) \<longrightarrow> panic_value s' = Some m"
      using Cons.IH [OF s1] by blast
    have run: "rtranclp step (i # q, s) ([], s')" using st s'(1) by (rule rtranclp_trans)
    have a: "exit_status s' = Some n" if "i # q = r @ [Exit n]" "\<forall>j\<in>set r. \<not> fatal j" for r n
    proof (cases r)
      case Nil
      then show ?thesis using that nf by simp
    next
      case (Cons x r')
      then have "q = r' @ [Exit n] \<and> (\<forall>j\<in>set r'. \<not> fatal j)" using that by simp
      then show ?thesis using s'(2) by blast
    qed
    have b: "panic_value s' = Some m" if "i # q = r @ [PanicWith m]" "\<forall>j\<in>set r. \<not> fatal j" for r m
    proof (cases r)
      case Nil
      then show ?thesis using that nf by simp
    next
      case (Cons x r')
      then have "q = r' @ [PanicWith m] \<and> (\<forall>j\<in>set r'. \<not> fatal j)" using that by simp
      then show ?thesis using s'(3) by blast
    qed
    show ?thesis using run a b by blast
  qed
  have cond: "wg s + int (adds_of (i # a)) = int (length (sends_of (i # a)))"
    if "q = a @ WGWait # b" for a b
  proof -
    have "i # q = (i # a) @ WGWait # b" using that by simp
    then show ?thesis using Cons.prems(4) by blast
  qed
  show ?case
  proof (cases i)
    case (WGAdd n)
    let ?s1 = "s\<lparr>wg := wg s + int n, trace := trace s @ [Did (WGAdd n)]\<rparr>"
    have "step (WGAdd n # q, s) (q, ?s1)" using step.add [OF Cons.prems(1)] .
    then have "rtranclp step (i # q, s) (q, ?s1)" using WGAdd by auto
    moreover have "\<forall>a b. q = a @ WGWait # b \<longrightarrow> wg ?s1 + int (adds_of a) = int (length (sends_of a))"
    proof (intro allI impI)
      fix a b assume "q = a @ WGWait # b"
      from cond [OF this] show "wg ?s1 + int (adds_of a) = int (length (sends_of a))"
        using WGAdd by simp
    qed
    ultimately show ?thesis using tail_goal [of ?s1] WGAdd Cons.prems by simp
  next
    case (Send ch e)
    let ?s1 = "s\<lparr>wg := wg s - int (length [ch]),
        trace := trace s @ concat (map (\<lambda>ch. [Did (Send ch e), Consumed ch e]) [ch])\<rparr>"
    have "rtranclp step (map (\<lambda>ch. Send ch e) [ch] @ q, s) (q, ?s1)"
      by (rule send_cycles) (use Cons.prems in simp_all)
    then have "rtranclp step (i # q, s) (q, ?s1)" using Send by simp
    moreover have "\<forall>a b. q = a @ WGWait # b \<longrightarrow> wg ?s1 + int (adds_of a) = int (length (sends_of a))"
    proof (intro allI impI)
      fix a b assume "q = a @ WGWait # b"
      from cond [OF this] show "wg ?s1 + int (adds_of a) = int (length (sends_of a))"
        using Send by simp
    qed
    ultimately show ?thesis using tail_goal [of ?s1] Send Cons.prems by simp
  next
    case WGWait
    let ?s1 = "s\<lparr>trace := trace s @ [Did WGWait]\<rparr>"
    have "wg s + int (adds_of []) = int (length (sends_of []))"
      using Cons.prems(4) WGWait by blast
    then have "wg s = 0" by simp
    then have "step (WGWait # q, s) (q, ?s1)" using step.wait [OF Cons.prems(1)] by simp
    then have "rtranclp step (i # q, s) (q, ?s1)" using WGWait by auto
    moreover have "\<forall>a b. q = a @ WGWait # b \<longrightarrow> wg ?s1 + int (adds_of a) = int (length (sends_of a))"
    proof (intro allI impI)
      fix a b assume "q = a @ WGWait # b"
      from cond [OF this] show "wg ?s1 + int (adds_of a) = int (length (sends_of a))"
        using WGWait by simp
    qed
    ultimately show ?thesis using tail_goal [of ?s1] WGWait Cons.prems by simp
  next
    case (PutField f)
    let ?s1 = "s\<lparr>lgr := (lgr s)\<lparr>fieldPool := f # fieldPool (lgr s)\<rparr>,
                   trace := trace s @ [Did (PutField f)]\<rparr>"
    have "step (PutField f # q, s) (q, ?s1)" using step.put_field [OF Cons.prems(1)] .
    then have "rtranclp step (i # q, s) (q, ?s1)" using PutField by auto
    moreover have "\<forall>a b. q = a @ WGWait # b \<longrightarrow> wg ?s1 + int (adds_of a) = int (length (sends_of a))"
    proof (intro allI impI)
      fix a b assume "q = a @ WGWait # b"
      from cond [OF this] show "wg ?s1 + int (adds_of a) = int (length (sends_of a))"
        using PutField by simp
    qed
    ultimately show ?thesis using tail_goal [of ?s1] PutField Cons.prems by simp
  next
    case (PutEntry x)
    let ?s1 = "s\<lparr>lgr := (lgr s)\<lparr>entryPool := x # entryPool (lgr s)\<rparr>,
                   trace := trace s @ [Did (PutEntry x)]\<rparr>"
    have "step (PutEntry x # q, s) (q, ?s1)" using step.put_entry [OF Cons.prems(1)] .
    then have "rtranclp step (i # q, s) (q, ?s1)" using PutEntry by auto
    moreover have "\<forall>a b. q = a @ WGWait # b \<longrightarrow> wg ?s1 + int (adds_of a) = int (length (sends_of a))"
    proof (intro allI impI)
      fix a b assume "q = a @ WGWait # b"
      from cond [OF this] show "wg ?s1 + int (adds_of a) = int (length (sends_of a))"
        using PutEntry by simp
    qed
    ultimately show ?thesis using tail_goal [of ?s1] PutEntry Cons.prems by simp
  next
    case (Println v)
    let ?s1 = "s\<lparr>trace := trace s @ [Did (Println v)]\<rparr>"
    have "step (Println v # q, s) (q, ?s1)" using step.println [OF Cons.prems(1)] .
    then have "rtranclp step (i # q, s) (q, ?s1)" using Println by auto
    moreover have "\<forall>a b. q = a @ WGWait # b \<longrightarrow> wg ?s1 + int (adds_of a) = int (length (sends_of a))"
    proof (intro allI impI)
      fix a b assume "q = a @ WGWait # b"
      from cond [OF this] show "wg ?s1 + int (adds_of a) = int (length (sends_of a))"
        using Println by simp
    qed
    ultimately show ?thesis using tail_goal [of ?s1] Println Cons.prems by simp
  next
    case (Exit n)
    let ?s1 = "s\<lparr>exit_status := Some n, trace := trace s @ [Did (Exit n)]\<rparr>"
    have "step (Exit n # q, s) ([], ?s1)" using step.exit [OF Cons.prems(1)] .
    then have run: "rtranclp step (i # q, s) ([], ?s1)" using Exit by auto
    have a: "exit_status ?s1 = Some k" if "i # q = r @ [Exit k]" "\<forall>j\<in>set r. \<not> fatal j" for r k
    proof (cases r)
      case Nil
      then show ?thesis using that Exit by simp
    next
      case (Cons x r')
      then have "fatal x" using that(1) Exit by auto
      then show ?thesis using that(2) Cons by simp
    qed
    have b: "panic_value ?s1 = Some m" if "i # q = r @ [PanicWith m]" "\<forall>j\<in>set r. \<not> fatal j" for r m
    proof (cases r)
      case Nil
      then show ?thesis using that Exit by simp
    next
      case (Cons x r')
      then have "fatal x" using that(1) Exit by auto
      then show ?thesis using that(2) Cons by simp
    qed
    show ?thesis using run a b by blast
  next
    case (PanicWith v)
    let ?s1 = "s\<lparr>panic_value := Some v, trace := trace s @ [Did (PanicWith v)]\<rparr>"
    have "step (PanicWith v # q, s) ([], ?s1)" using step.panic [OF Cons.prems(1)] .
    then have run: "rtranclp step (i # q, s) ([], ?s1)" using PanicWith by auto
    have a: "exit_status ?s1 = Some k" if "i # q = r @ [Exit k]" "\<forall>j\<in>set r. \<not> fatal j" for r k
    proof (cases r)
      case Nil
      then show ?thesis using that PanicWith by simp
    next
      case (Cons x r')
      then have "fatal x" using that(1) PanicWith by auto
      then show ?thesis using that(2) Cons by simp
    qed
    have b: "panic_value ?s1 = Some m" if "i # q = r @ [PanicWith m]" "\<forall>j\<in>set r. \<not> fatal j" for r m
    proof (cases r)
      case Nil
      then show ?thesis using that PanicWith by simp
    next
      case (Cons x r')
      then have "fatal x" using that(1) PanicWith by auto
      then show ?thesis using that(2) Cons by simp
    qed
    show ?thesis using run a b by blast
  qed
qed


lemma unique_split:
  assumes "xs @ a # ys = xs' @ a # ys'" and "a \<notin> set xs" and "a \<notin> set ys"
  shows "xs = xs'"
proof -
  from assms(1) obtain us where
    "(xs = xs' @ us \<and> us @ a # ys = a # ys') \<or> (xs @ us = xs' \<and> a # ys = us @ a # ys')"
    by (auto simp: append_eq_append_conv2)
  then show ?thesis
  proof
    assume h: "xs = xs' @ us \<and> us @ a # ys = a # ys'"
    show ?thesis
    proof (cases us)
      case Nil
      then show ?thesis using h by simp
    next
      case (Cons u us')
      then have "u = a" using h by simp
      then have "a \<in> set xs" using h Cons by simp
      then show ?thesis using assms(2) by simp
    qed
  next
    assume h: "xs @ us = xs' \<and> a # ys = us @ a # ys'"
    show ?thesis
    proof (cases us)
      case Nil
      then show ?thesis using h by simp
    next
      case (Cons u us')
      then have "ys = us' @ a # ys'" using h by simp
      then have "a \<in> set ys" by simp
      then show ?thesis using assms(3) by simp
    qed
  qed
qed

lemma wait_balanced:
  assumes P: "HandleEntry l e @ [i] = A @ WGWait # B" and i: "fatal i"
  shows "adds_of A = length (sends_of A)"
proof (cases "channels l (Level e)")
  case None
  have "WGWait \<in> set (HandleEntry l e @ [i])" using P by simp
  then show ?thesis using None i by (auto simp: HandleEntry_def)
next
  case (Some chs)
  let ?A = "WGAdd (length chs) # map (\<lambda>ch. Send ch e) chs"
  let ?B = "map PutField (Fields e) @ [PutEntry e] @ [i]"
  have "?A @ WGWait # ?B = A @ WGWait # B" using P Some by (simp add: HandleEntry_def)
  moreover have "WGWait \<notin> set ?A" by auto
  moreover have "WGWait \<notin> set ?B" using i by auto
  ultimately have "?A = A" by (rule unique_split)
  then have "adds_of A = adds_of ?A \<and> sends_of A = sends_of ?A" by simp
  then show ?thesis by simp
qed

lemma can_finish:
  assumes reach: "rtranclp step (HandleEntry l e @ [i], fresh cap l) (q, s)" and i: "fatal i"
  shows "\<exists>s'. rtranclp step (q, s) ([], s')
            \<and> (\<forall>n. i = Exit n \<longrightarrow> exit_status s' = Some n)
            \<and> (\<forall>m. i = PanicWith m \<longrightarrow> panic_value s' = Some m \<and> exit_status s' = None)"
proof -
  let ?H = "HandleEntry l e"
  let ?P = "?H @ [i]"
  have snd: "sound ?P l (q, s)" using sound_reachable [OF reach sound_fresh] .
  show ?thesis
  proof (cases "exit_status s = None \<and> panic_value s = None")
    case True
    obtain s1 where s1: "rtranclp step (q, s) (q, s1)" "queued s1 = []" "busy s1 = []"
      "exit_status s1 = None" "panic_value s1 = None"
      using drain [of s q] True by auto
    have reach1: "rtranclp step (?P, fresh cap l) (q, s1)" using reach s1(1) by (rule rtranclp_trans)
    have "sound ?P l (q, s1)" using sound_reachable [OF reach1 sound_fresh] .
    then have w: "wg s1 = int (adds_of (instrs (trace s1))) - int (acks (trace s1))"
      and a: "acks (trace s1) = length (sends_of (instrs (trace s1)))"
      and r: "?P = instrs (trace s1) @ q"
      and nf: "\<forall>j\<in>set (instrs (trace s1)). \<not> fatal j"
      using s1 by (auto simp: sound_def)
    have cond: "\<forall>a b. q = a @ WGWait # b \<longrightarrow> wg s1 + int (adds_of a) = int (length (sends_of a))"
    proof (intro allI impI)
      fix a b assume "q = a @ WGWait # b"
      then have "?P = (instrs (trace s1) @ a) @ WGWait # b" using r by simp
      then have "adds_of (instrs (trace s1) @ a) = length (sends_of (instrs (trace s1) @ a))"
        using wait_balanced i by blast
      then show "wg s1 + int (adds_of a) = int (length (sends_of a))" using w a by simp
    qed
    obtain s' where s': "rtranclp step (q, s1) ([], s')"
      "\<forall>r n. q = r @ [Exit n] \<and> (\<forall>j\<in>set r. \<not> fatal j) \<longrightarrow> exit_status s' = Some n"
      "\<forall>r m. q = r @ [PanicWith m] \<and> (\<forall>j\<in>set r. \<not> fatal j) \<longrightarrow> panic_value s' = Some m"
      using cooperative_run [OF s1(4) s1(5) s1(2) cond] by blast
    have "q \<noteq> []"
    proof
      assume "q = []"
      then have "i \<in> set (instrs (trace s1))" using r by (metis append_Nil2 in_set_conv_decomp)
      then show False using nf i by blast
    qed
    then obtain r0 x where rx: "q = r0 @ [x]" by (cases q rule: rev_cases) auto
    then have "?H @ [i] = (instrs (trace s1) @ r0) @ [x]" using r by simp
    then have "?H = instrs (trace s1) @ r0 \<and> i = x" by (simp only: append1_eq_conv)
    then have q: "q = butlast q @ [i]" and H: "?H = instrs (trace s1) @ butlast q"
      using rx by simp_all
    have "\<forall>j\<in>set ?H. \<not> fatal j" using HandleEntry_not_fatal by blast
    then have bl: "\<forall>j\<in>set (butlast q). \<not> fatal j" using H by (metis Un_iff set_append)
    have run: "rtranclp step (q, s) ([], s')" using s1(1) s'(1) by (rule rtranclp_trans)
    have e: "exit_status s' = Some n" if "i = Exit n" for n
      using s'(2) q bl that by metis
    have p: "panic_value s' = Some m" if "i = PanicWith m" for m
      using s'(3) q bl that by metis
    have pe: "exit_status s' = None" if ip: "i = PanicWith m" for m
    proof -
      have reach2: "rtranclp step (?P, fresh cap l) ([], s')" using reach run by (rule rtranclp_trans)
      have s2: "sound ?P l ([], s')" using sound_reachable [OF reach2 sound_fresh] .
      show ?thesis
      proof (rule ccontr)
        assume "exit_status s' \<noteq> None"
        then obtain n where n: "exit_status s' = Some n" by blast
        then have "trace s' \<noteq> [] \<and> last (trace s') = Did (Exit n)" using s2 by (simp add: sound_def)
        then have il: "instrs (trace s') \<noteq> []" "last (instrs (trace s')) = Exit n"
          using instrs_last by blast+
        then have "Exit n \<in> set (instrs (trace s'))" using last_in_set by metis
        moreover obtain rest where "?P = instrs (trace s') @ rest" using s2 by (auto simp: sound_def)
        ultimately have "Exit n \<in> set ?P" by (metis Un_iff set_append)
        then show False using ip HandleEntry_not_fatal [of l e] by auto
      qed
    qed
    show ?thesis using run e p pe by blast
  next
    case False
    then have q: "q = []" using snd by (auto simp: sound_def)
    have il: "instrs (trace s) \<noteq> [] \<and> fatal (last (instrs (trace s)))"
    proof (cases "exit_status s")
      case None
      then obtain x where "panic_value s = Some x" using False by auto
      then show ?thesis using snd by (simp add: sound_def)
    next
      case (Some n)
      then have "trace s \<noteq> [] \<and> last (trace s) = Did (Exit n)" using snd by (simp add: sound_def)
      then show ?thesis using instrs_last by fastforce
    qed
    then obtain pre post where t: "trace s = pre @ Did i # post" "instrs pre = ?H" "instrs post = []"
      using after_dispatch [OF reach i] by blast
    then have full: "instrs (trace s) = ?H @ [i]" by simp
    have e: "exit_status s = Some n" if ie: "i = Exit n" for n
    proof (cases "exit_status s")
      case None
      then obtain x where "panic_value s = Some x" using False by auto
      then have "last (instrs (trace s)) = PanicWith x" using snd by (simp add: sound_def)
      then show ?thesis using full ie by simp
    next
      case (Some k)
      then have "trace s \<noteq> [] \<and> last (trace s) = Did (Exit k)" using snd by (simp add: sound_def)
      then have "last (instrs (trace s)) = Exit k" using instrs_last by blast
      then show ?thesis using full ie Some by simp
    qed
    have p: "panic_value s = Some m \<and> exit_status s = None" if ip: "i = PanicWith m" for m
    proof (cases "exit_status s")
      case None
      then obtain x where x: "panic_value s = Some x" using False by auto
      then have "last (instrs (trace s)) = PanicWith x" using snd by (simp add: sound_def)
      then show ?thesis using full ip x None by simp
    next
      case (Some k)
      then have "trace s \<noteq> [] \<and> last (trace s) = Did (Exit k)" using snd by (simp add: sound_def)
      then have "last (instrs (trace s)) = Exit k" using instrs_last by blast
      then show ?thesis using full ip by simp
    qed
    have "rtranclp step (q, s) ([], s)" using q by simp
    then show ?thesis using e p by blast
  qed
qed

section \<open>Dispatch\<close>

text \<open>
  Claim C1. Let \<^verbatim>\<open>HandleEntry\<close> dispatch an Entry whose level has
  the \<open>K\<close> channels \<open>chs\<close>, and take any state its run can reach,
  however the handlers are scheduled. Before each send in the trace the counter was raised
  by \<open>K\<close>, once, and from the first operation on the counter is
  \<open>K\<close> less the acknowledgements so far. Before each return of a field or of
  the Entry to its pool, \<open>K\<close> acknowledgements stand in the trace. And once a
  pool has changed, all \<open>K\<close> copies are acknowledged and no handler holds one.
\<close>

theorem HandleEntry_completion_barrier:
  assumes routed: "channels l (Level e) = Some chs"
    and reach: "rtranclp step (HandleEntry l e, fresh cap l) (p, s)"
  shows "(\<forall>pre ch x post. trace s = pre @ Did (Send ch x) # post \<longrightarrow>
            Did (WGAdd (length chs)) \<in> set pre \<and> adds_of (instrs pre) = length chs)
       \<and> (\<forall>pre i post. trace s = pre @ Did i # post \<and> is_reclaim i \<longrightarrow> acks pre = length chs)
       \<and> (lgr s \<noteq> l \<longrightarrow> acks (trace s) = length chs \<and> queued s = [] \<and> busy s = [])
       \<and> (instrs (trace s) \<noteq> [] \<longrightarrow> wg s = int (length chs) - int (acks (trace s)))"
proof -
  let ?P = "HandleEntry l e"
  let ?c0 = "(?P, fresh cap l)"
  have reach': "rtranclp step (?P @ [], fresh cap l) (p, s)" using reach by simp
  have K: "routing l (Level e) = chs" using routed by (simp add: routing_def)
  have t0: "trace (snd ?c0) = []" by (simp add: fresh_def)
  have P: "?P = WGAdd (length chs) # map (\<lambda>ch. Send ch e) chs @ WGWait
      # map PutField (Fields e) @ [PutEntry e]"
    using routed by (simp add: HandleEntry_def)
  have part2: "acks pre = length chs" if "trace s = pre @ Did i # post" "is_reclaim i" for pre i post
  proof -
    have "\<not> is_dispatch i" using that(2) by (cases i) simp_all
    then show ?thesis using barrier [OF reach' _ that(1)] K by simp
  qed
  have part1: "Did (WGAdd (length chs)) \<in> set pre \<and> adds_of (instrs pre) = length chs"
    if "trace s = pre @ Did (Send ch x) # post" for pre ch x post
  proof -
    have "trace (snd (p, s)) = (pre @ [Did (Send ch x)]) @ post" using that by simp
    then obtain c1 where c1: "rtranclp step ?c0 c1" "trace (snd c1) = pre @ [Did (Send ch x)]"
      using prefix_reachable [OF reach t0] by blast
    have "sound ?P l c1" using sound_reachable [OF c1(1) sound_fresh] .
    then obtain rest where r: "?P = instrs pre @ Send ch x # rest"
      using c1(2) by (cases c1) (auto simp: sound_def)
    then obtain ys where ys: "instrs pre = WGAdd (length chs) # ys"
      using P by (cases "instrs pre") auto
    then have "ys @ Send ch x # rest
        = map (\<lambda>ch. Send ch e) chs @ WGWait # map PutField (Fields e) @ [PutEntry e]"
      using r P by simp
    then have "adds_of (ys @ Send ch x # rest)
        = adds_of (map (\<lambda>ch. Send ch e) chs @ WGWait # map PutField (Fields e) @ [PutEntry e])"
      by simp
    moreover have "adds_of (map PutField fs) = 0" for fs by (induction fs) auto
    ultimately have "adds_of ys = 0" by simp
    moreover have "WGAdd (length chs) \<in> set (instrs pre)" using ys by simp
    ultimately show ?thesis using ys instrs_set by simp
  qed
  have part3: "acks (trace s) = length chs \<and> queued s = [] \<and> busy s = []" if "lgr s \<noteq> l"
  proof -
    have "sound ?P l (p, s)" using sound_reachable [OF reach sound_fresh] .
    then have "lgr s = reclaim (instrs (trace s)) l" by (simp add: sound_def)
    then have "reclaim (instrs (trace s)) l \<noteq> l" using that by simp
    then have "\<exists>i\<in>set (instrs (trace s)). is_reclaim i" by (rule reclaim_changed)
    then obtain i where "i \<in> set (instrs (trace s))" "is_reclaim i" by blast
    then obtain pre post where tr: "trace s = pre @ Did i # post" using Did_in_trace by blast
    then have "acks pre = length chs" using part2 \<open>is_reclaim i\<close> by blast
    then have "length chs \<le> acks (trace s)" using tr by simp
    moreover have "acks (trace s) + length (queued s) + length (busy s) \<le> length chs"
      using acks_bound [OF reach'] K by simp
    ultimately have "acks (trace s) = length chs \<and> length (queued s) = 0 \<and> length (busy s) = 0"
      by linarith
    then show ?thesis by simp
  qed
  have part4: "wg s = int (length chs) - int (acks (trace s))" if ne: "instrs (trace s) \<noteq> []"
  proof -
    have "sound ?P l (p, s)" using sound_reachable [OF reach sound_fresh] .
    then obtain rest where w: "wg s = int (adds_of (instrs (trace s))) - int (acks (trace s))"
      and r: "?P = instrs (trace s) @ rest"
      by (auto simp: sound_def)
    obtain ys where ys: "instrs (trace s) = WGAdd (length chs) # ys"
      using r P ne by (cases "instrs (trace s)") auto
    then have "ys @ rest
        = map (\<lambda>ch. Send ch e) chs @ WGWait # map PutField (Fields e) @ [PutEntry e]"
      using r P by simp
    then have "adds_of (ys @ rest)
        = adds_of (map (\<lambda>ch. Send ch e) chs @ WGWait # map PutField (Fields e) @ [PutEntry e])"
      by simp
    moreover have "adds_of (map PutField fs) = 0" for fs by (induction fs) auto
    ultimately have "adds_of ys = 0" by simp
    then show ?thesis using w ys by simp
  qed
  show ?thesis using part1 part2 part3 part4 by blast
qed

theorem HandleEntry_completion_barrier_witness:
  "rtranclp step (HandleEntry two_handlers hello, fresh quiet_chans two_handlers)
     ([], (fresh quiet_chans two_handlers)
            \<lparr>lgr := reclaim (HandleEntry two_handlers hello) two_handlers,
             trace := handled_trace two_handlers hello\<rparr>)
   \<and> acks (handled_trace two_handlers hello) = 2
   \<and> reclaim (HandleEntry two_handlers hello) two_handlers \<noteq> two_handlers"
proof -
  let ?s = "(fresh quiet_chans two_handlers)
            \<lparr>lgr := reclaim (HandleEntry two_handlers hello) two_handlers,
             trace := handled_trace two_handlers hello\<rparr>"
  have routed: "channels two_handlers (Level hello) = Some [1, 2]"
    by (simp add: two_handlers_def hello_def)
  have "rtranclp step (HandleEntry two_handlers hello @ [], fresh quiet_chans two_handlers)
     ([], (fresh quiet_chans two_handlers)
            \<lparr>lgr := reclaim (HandleEntry two_handlers hello) (lgr (fresh quiet_chans two_handlers)),
             trace := trace (fresh quiet_chans two_handlers) @ handled_trace two_handlers hello\<rparr>)"
    by (rule dispatch_run) (simp_all add: fresh_def)
  then have run: "rtranclp step (HandleEntry two_handlers hello, fresh quiet_chans two_handlers)
     ([], ?s)"
    by (simp add: fresh_def)
  have changed: "lgr ?s \<noteq> two_handlers"
    by (simp add: reclaim_HandleEntry two_handlers_def)
  have "acks (trace ?s) = length [1::nat, 2]"
    using HandleEntry_completion_barrier [OF routed run] changed by blast
  then show ?thesis using run changed by simp
qed

text \<open>
  Claim C2. When the Entry's level has no entry in the routing table,
  \<^verbatim>\<open>HandleEntry\<close> is the reclamation alone: no operation of it
  sends or waits. In every state of its run no copy is in a channel or with a handler, the
  next operation can always be taken (the call never blocks), and when the call has
  returned every field of the Entry is in the field pool and the Entry is in the entry
  pool. The call does return.
\<close>

theorem HandleEntry_without_handler:
  assumes none: "channels l (Level e) = None"
  shows "HandleEntry l e = map PutField (Fields e) @ [PutEntry e]
       \<and> (\<forall>i\<in>set (HandleEntry l e). \<not> blocking i)
       \<and> (\<forall>q s. rtranclp step (HandleEntry l e, fresh cap l) (q, s) \<longrightarrow>
             queued s = [] \<and> busy s = []
           \<and> (q \<noteq> [] \<longrightarrow> (\<exists>s'. step (q, s) (tl q, s')))
           \<and> (q = [] \<longrightarrow> fieldPool (lgr s) = rev (Fields e) @ fieldPool l
                        \<and> entryPool (lgr s) = e # entryPool l))
       \<and> (\<exists>s. rtranclp step (HandleEntry l e, fresh cap l) ([], s))"
proof -
  let ?P = "HandleEntry l e"
  have P: "?P = map PutField (Fields e) @ [PutEntry e]"
    using none by (simp add: HandleEntry_def)
  have puts: "\<forall>i\<in>set ?P. is_reclaim i" using P by auto
  then have nb: "\<forall>i\<in>set ?P. \<not> blocking i" using P by auto
  have run: "\<exists>s. rtranclp step (?P, fresh cap l) ([], s)"
  proof -
    have "rtranclp step (?P @ [], fresh cap l)
       ([], (fresh cap l)\<lparr>lgr := reclaim ?P (lgr (fresh cap l)),
                          trace := trace (fresh cap l) @ handled_trace l e\<rparr>)"
      by (rule dispatch_run) (simp_all add: fresh_def)
    then show ?thesis by auto
  qed
  have every: "queued s = [] \<and> busy s = []
           \<and> (q \<noteq> [] \<longrightarrow> (\<exists>s'. step (q, s) (tl q, s')))
           \<and> (q = [] \<longrightarrow> fieldPool (lgr s) = rev (Fields e) @ fieldPool l
                        \<and> entryPool (lgr s) = e # entryPool l)"
    if reach: "rtranclp step (?P, fresh cap l) (q, s)" for q s
  proof -
    have reach': "rtranclp step (?P @ [], fresh cap l) (q, s)" using reach by simp
    have "acks (trace s) + length (queued s) + length (busy s) \<le> length (routing l (Level e))"
      using acks_bound [OF reach'] by simp
    then have quiet: "queued s = [] \<and> busy s = []" using none by (simp add: routing_def)
    have ns: "exit_status s = None \<and> panic_value s = None"
      using not_stopped [OF reach] HandleEntry_not_fatal by blast
    have "sound ?P l (q, s)" using sound_reachable [OF reach sound_fresh] .
    then have lg: "lgr s = reclaim (instrs (trace s)) l" and r: "?P = instrs (trace s) @ q"
      using ns by (auto simp: sound_def)
    have a: "\<exists>s'. step (q, s) (tl q, s')" if "q \<noteq> []"
    proof -
      obtain i q' where q: "q = i # q'" using \<open>q \<noteq> []\<close> by (cases q) auto
      then have "i \<in> set ?P" using r by (metis in_set_conv_decomp)
      then have "is_reclaim i" using puts by blast
      then show ?thesis
      proof (cases i)
        case (PutField f)
        then show ?thesis using step.put_field [of s f q'] ns q by auto
      next
        case (PutEntry x)
        then show ?thesis using step.put_entry [of s x q'] ns q by auto
      qed simp_all
    qed
    have b: "fieldPool (lgr s) = rev (Fields e) @ fieldPool l \<and> entryPool (lgr s) = e # entryPool l"
      if "q = []"
    proof -
      have "instrs (trace s) = ?P" using r that by simp
      then show ?thesis using lg by (simp add: reclaim_HandleEntry)
    qed
    show ?thesis using quiet a b by blast
  qed
  show ?thesis using P nb every run by blast
qed

theorem HandleEntry_without_handler_witness:
  "HandleEntry two_handlers unheard = [PutField \<lparr>Key = ''ok'', Value = VBool True\<rparr>, PutEntry unheard]
   \<and> channels two_handlers (Level unheard) = None"
proof -
  have none: "channels two_handlers (Level unheard) = None"
    by (simp add: two_handlers_def unheard_def hello_def)
  have "HandleEntry two_handlers unheard = map PutField (Fields unheard) @ [PutEntry unheard]"
    using HandleEntry_without_handler [OF none, of quiet_chans] by (rule conjunct1)
  then show ?thesis using none by (simp add: unheard_def hello_def)
qed

section \<open>Fatal and Panic\<close>



text \<open>
  Claim C6. A call of \<^verbatim>\<open>Panic\<close> or
  \<^verbatim>\<open>Panicf\<close> is \<^verbatim>\<open>HandleEntry\<close> on an Entry
  at Error level carrying the rendered message, followed by a panic with that message. In
  whatever state of a run the panic has been raised, its value is the rendered message,
  all of \<^verbatim>\<open>HandleEntry\<close> was executed before it, and as many
  acknowledgements precede it as there are channels registered for the Error level. And
  from every state of a run the panic can still be reached, with no exit before it.
\<close>

theorem Panic_after_dispatch:
  assumes call: "(call, m) = (Panic Sprint now l v, Sprint v)
               \<or> (call, m) = (Panicf Sprintf now l msg v, Sprintf msg v)"
  shows "(\<exists>e. snd call = HandleEntry (fst call) e @ [PanicWith m] \<and> Level e = ErrorLevel
              \<and> Message e = m)
       \<and> (\<forall>q s x. rtranclp step (start cap call) (q, s) \<and> panic_value s = Some x \<longrightarrow>
            x = m \<and> queued s = [] \<and> busy s = [] \<and>
            (\<exists>pre post e. trace s = pre @ Did (PanicWith m) # post \<and> instrs post = []
                 \<and> instrs pre = HandleEntry (fst call) e
                 \<and> acks pre = length (routing l ErrorLevel)))
       \<and> (\<forall>q s. rtranclp step (start cap call) (q, s) \<longrightarrow>
            (\<exists>s'. rtranclp step (q, s) ([], s') \<and> panic_value s' = Some m
                  \<and> exit_status s' = None))"
proof -
  obtain e where e: "snd call = HandleEntry (fst call) e @ [PanicWith m]" "Level e = ErrorLevel"
    "Message e = m" "channels (fst call) = channels l"
    using Panic_shape [OF call] by blast
  let ?l = "fst call"
  have st: "start cap call = (HandleEntry ?l e @ [PanicWith m], fresh cap ?l)"
    using e(1) by (simp add: start_def)
  have K: "routing ?l (Level e) = routing l ErrorLevel"
    using e(2,4) by (simp add: routing_def)
  have safe: "x = m \<and> queued s = [] \<and> busy s = [] \<and>
            (\<exists>pre post e. trace s = pre @ Did (PanicWith m) # post \<and> instrs post = []
                 \<and> instrs pre = HandleEntry ?l e
                 \<and> acks pre = length (routing l ErrorLevel))"
    if reach: "rtranclp step (start cap call) (q, s)" and pv: "panic_value s = Some x" for q s x
  proof -
    have reach': "rtranclp step (HandleEntry ?l e @ [PanicWith m], fresh cap ?l) (q, s)"
      using reach st by simp
    have "sound (HandleEntry ?l e @ [PanicWith m]) ?l (q, s)"
      using sound_reachable [OF reach' sound_fresh] .
    then have il: "instrs (trace s) \<noteq> []" "last (instrs (trace s)) = PanicWith x"
      using pv by (simp_all add: sound_def)
    then have "fatal (last (instrs (trace s)))" by simp
    then obtain pre post where t: "trace s = pre @ Did (PanicWith m) # post"
      "instrs pre = HandleEntry ?l e" "instrs post = []"
      "acks pre = length (routing ?l (Level e))" "queued s = []" "busy s = []"
      using after_dispatch [OF reach' _ il(1)] by auto
    have "instrs (trace s) = HandleEntry ?l e @ [PanicWith m]" using t(1,2,3) by simp
    then have "x = m" using il(2) by simp
    then show ?thesis using t K by auto
  qed
  have live: "\<exists>s'. rtranclp step (q, s) ([], s') \<and> panic_value s' = Some m
      \<and> exit_status s' = None"
    if reach: "rtranclp step (start cap call) (q, s)" for q s
  proof -
    have "rtranclp step (HandleEntry ?l e @ [PanicWith m], fresh cap ?l) (q, s)"
      using reach st by simp
    then show ?thesis using can_finish [of ?l e "PanicWith m" cap q s] by auto
  qed
  show ?thesis using e(1,2,3) safe live by blast
qed

theorem Panic_after_dispatch_witness:
  "\<exists>s. rtranclp step (start quiet_chans (Panicf Sprintf_none T0 two_handlers ''no route'' ())) ([], s)
       \<and> panic_value s = Some ''no route'' \<and> queued s = [] \<and> busy s = []
       \<and> acks (trace s) = 1"
proof -
  let ?call = "Panicf Sprintf_none T0 two_handlers ''no route'' ()"
  have c: "(?call, ''no route'') = (Panic Sprint_none T0 two_handlers (), Sprint_none ())
         \<or> (?call, ''no route'')
           = (Panicf Sprintf_none T0 two_handlers ''no route'' (), Sprintf_none ''no route'' ())"
    by (simp add: Sprintf_none_def)
  note th = Panic_after_dispatch [OF c, of quiet_chans]
  have "rtranclp step (start quiet_chans ?call) (snd ?call, fresh quiet_chans (fst ?call))"
    by (simp add: start_def)
  with th obtain s where "rtranclp step (snd ?call, fresh quiet_chans (fst ?call)) ([], s)"
    "panic_value s = Some ''no route''"
    by blast
  then have s: "rtranclp step (start quiet_chans ?call) ([], s)"
    "panic_value s = Some ''no route''"
    by (simp_all add: start_def)
  with th have "queued s = [] \<and> busy s = [] \<and>
      (\<exists>pre post e. trace s = pre @ Did (PanicWith ''no route'') # post \<and> instrs post = []
           \<and> instrs pre = HandleEntry (fst ?call) e
           \<and> acks pre = length (routing two_handlers ErrorLevel))"
    by blast
  then obtain pre post where t: "trace s = pre @ Did (PanicWith ''no route'') # post"
    "instrs post = []" "acks pre = length (routing two_handlers ErrorLevel)"
    and q: "queued s = [] \<and> busy s = []"
    by blast
  have "acks (trace s) + length (queued s) + length (busy s) \<le> 1"
  proof -
    obtain e where e: "snd ?call = HandleEntry (fst ?call) e @ [PanicWith ''no route'']"
      "Level e = ErrorLevel" "channels (fst ?call) = channels two_handlers"
      using Panic_shape [OF c] by blast
    have "rtranclp step (HandleEntry (fst ?call) e @ [PanicWith ''no route''], fresh quiet_chans (fst ?call))
        ([], s)"
      using s(1) e(1) by (simp add: start_def)
    then have "acks (trace s) + length (queued s) + length (busy s)
        \<le> length (routing (fst ?call) (Level e))"
      by (rule acks_bound) simp
    then show ?thesis using e(2,3) by (simp add: routing_def two_handlers_def)
  qed
  moreover have "1 \<le> acks (trace s)" using t by (simp add: routing_def two_handlers_def)
  ultimately have "acks (trace s) = 1" by linarith
  then show ?thesis using s q by blast
qed

section \<open>Registration and the facade's other calls\<close>

lemma register_levels_lookup:
  "register_levels m ch levels lvl =
     (if lvl \<in> set levels
      then Some ((case m lvl of None \<Rightarrow> [] | Some chs \<Rightarrow> chs) @ replicate (count_list levels lvl) ch)
      else m lvl)"
proof (induction levels arbitrary: m)
  case Nil
  then show ?case by simp
next
  case (Cons a levels)
  show ?case
    by (simp add: Cons.IH replicate_append_same split: option.splits)
qed

text \<open>
  Claim C7. \<^verbatim>\<open>RegisterHandler\<close> leaves the handler in the state one
  call of its \<^verbatim>\<open>Run\<close> produces, and the channel that call returned
  is appended to the routing list of every level named (once for each time the level is
  named); other levels and the pools are untouched. So within a level the channels stand
  in registration order, and that is the order in which
  \<^verbatim>\<open>HandleEntry\<close> sends: its sends are the routing list of the
  Entry's level, and in every state of a run the sends made so far are an initial piece of
  that list.
\<close>

theorem RegisterHandler_routing:
  assumes reg: "RegisterHandler run h l levels = (l', h')"
  shows "h' = snd (run h)
       \<and> (\<forall>lvl\<in>set levels.
            channels l' lvl = Some (routing l lvl @ replicate (count_list levels lvl) (fst (run h))))
       \<and> (\<forall>lvl. lvl \<notin> set levels \<longrightarrow> channels l' lvl = channels l lvl)
       \<and> fieldPool l' = fieldPool l \<and> entryPool l' = entryPool l
       \<and> (\<forall>e. sends_of (HandleEntry l' e) = routing l' (Level e))
       \<and> (\<forall>e cap q s. rtranclp step (HandleEntry l' e, fresh cap l') (q, s) \<longrightarrow>
            (\<exists>rest. routing l' (Level e) = sends_of (instrs (trace s)) @ rest))"
proof -
  obtain ch h1 where r: "run h = (ch, h1)" by (cases "run h")
  then have l': "l' = l\<lparr>channels := register_levels (channels l) ch levels\<rparr>" and h': "h' = h1"
    using reg by (simp_all add: RegisterHandler_def)
  have order: "\<exists>rest. routing l' (Level e) = sends_of (instrs (trace s)) @ rest"
    if reach: "rtranclp step (HandleEntry l' e, fresh cap l') (q, s)" for e cap q s
  proof -
    have "sound (HandleEntry l' e) l' (q, s)" using sound_reachable [OF reach sound_fresh] .
    then obtain rest where "HandleEntry l' e = instrs (trace s) @ rest"
      by (auto simp: sound_def)
    then have "sends_of (HandleEntry l' e) = sends_of (instrs (trace s)) @ sends_of rest"
      by simp
    then show ?thesis by (simp add: sends_of_HandleEntry)
  qed
  have "h' = snd (run h)
       \<and> (\<forall>lvl\<in>set levels.
            channels l' lvl = Some (routing l lvl @ replicate (count_list levels lvl) (fst (run h))))
       \<and> (\<forall>lvl. lvl \<notin> set levels \<longrightarrow> channels l' lvl = channels l lvl)
       \<and> fieldPool l' = fieldPool l \<and> entryPool l' = entryPool l
       \<and> (\<forall>e. sends_of (HandleEntry l' e) = routing l' (Level e))"
    using r h' by (simp add: l' register_levels_lookup routing_def sends_of_HandleEntry)
  then show ?thesis using order by blast
qed

theorem RegisterHandler_routing_witness:
  "snd (RegisterHandler counting_run 0 two_handlers [ErrorLevel, WarnLevel]) = 1
   \<and> channels (fst (RegisterHandler counting_run 0 two_handlers [ErrorLevel, WarnLevel])) ErrorLevel
       = Some [2, 7]
   \<and> channels (fst (RegisterHandler counting_run 0 two_handlers [ErrorLevel, WarnLevel])) WarnLevel
       = Some [7]
   \<and> sends_of (HandleEntry (fst (RegisterHandler counting_run 0 two_handlers [ErrorLevel, WarnLevel]))
        (hello\<lparr>Level := ErrorLevel\<rparr>)) = [2, 7]"
proof -
  let ?r = "RegisterHandler counting_run 0 two_handlers [ErrorLevel, WarnLevel]"
  have reg: "?r = (fst ?r, snd ?r)" by simp
  note th = RegisterHandler_routing [OF reg]
  have a: "snd ?r = snd (counting_run 0)" using th by blast
  have b: "\<forall>lvl\<in>set [ErrorLevel, WarnLevel]. channels (fst ?r) lvl
      = Some (routing two_handlers lvl @ replicate (count_list [ErrorLevel, WarnLevel] lvl) (fst (counting_run 0)))"
    using th by blast
  have c: "\<forall>e. sends_of (HandleEntry (fst ?r) e) = routing (fst ?r) (Level e)"
    using th by blast
  have e: "channels (fst ?r) ErrorLevel = Some [2, 7]"
    using b by (simp add: routing_def two_handlers_def counting_run_def)
  have w: "channels (fst ?r) WarnLevel = Some [7]"
    using b by (simp add: routing_def two_handlers_def counting_run_def)
  have "sends_of (HandleEntry (fst ?r) (hello\<lparr>Level := ErrorLevel\<rparr>)) = [2, 7]"
    using c e by (simp add: routing_def)
  then show ?thesis using a e w by (simp add: counting_run_def)
qed

text \<open>
  What \<^verbatim>\<open>WithFields\<close> returns, as far as the code modelled here decides
  it: an Entry at Info level with an empty message and the given fields, with no operation
  performed. The source hands this Entry out as a \<^verbatim>\<open>LeveledLogger\<close>; what
  a level call made on it later does with the fields is decided by the level methods of
  \<^verbatim>\<open>Entry\<close>, which are in a file of the package that is not modelled here
  and which the spec leaves open (section 9). No statement is made about them.
\<close>

lemma WithFields_result:
  assumes "WithFields now l flds = (e, l', p)"
  shows "Level e = InfoLevel \<and> Message e = [] \<and> Fields e = flds \<and> p = []
       \<and> channels l' = channels l \<and> fieldPool l' = fieldPool l"
proof -
  obtain e1 l1 where n: "newEntry now l InfoLevel [] flds = (e1, l1)"
    by (cases "newEntry now l InfoLevel [] flds")
  then have "e = e1 \<and> l' = l1 \<and> p = []" using assms by (simp add: WithFields_def)
  then show ?thesis using newEntry_result [OF n] by simp
qed

section \<open>The console handler\<close>

lemma log_at_shape:
  "log_at now l lvl s = (l', p) \<Longrightarrow>
   \<exists>e. p = HandleEntry l' e \<and> Level e = lvl \<and> Message e = s \<and> Fields e = []
       \<and> channels l' = channels l"
proof -
  assume a: "log_at now l lvl s = (l', p)"
  obtain e l1 where n: "newEntry now l lvl s [] = (e, l1)" by (cases "newEntry now l lvl s []")
  then have "l' = l1 \<and> p = HandleEntry l1 e" using a by (auto simp: log_at_def)
  then show ?thesis using newEntry_result [OF n] by auto
qed

text \<open>
  Claim C8. \<^verbatim>\<open>SetBuffersAndWorkers\<close> stores the buffer size. With a
  worker count of zero it stores 1, prints the diagnostic and calls
  \<^verbatim>\<open>Warn\<close> of the facade with it: an Entry at Warn level goes
  through \<^verbatim>\<open>HandleEntry\<close>. Any other worker count is stored
  unchanged and nothing else happens. No operation of the call exits or panics, and no
  state of its run has exited or panicked.
\<close>

theorem SetBuffersAndWorkers_corrects_zero:
  assumes set: "SetBuffersAndWorkers Sprint now l c sz workers = (c', l', p)"
  shows "buffer c' = sz
       \<and> (workers = 0 \<longrightarrow>
            numWorkers c' = 1 \<and> (l', tl p) = Warn Sprint now l invalid_workers
            \<and> (\<exists>e. p = Println invalid_workers # HandleEntry l' e \<and> Level e = WarnLevel
                    \<and> Message e = Sprint invalid_workers))
       \<and> (workers \<noteq> 0 \<longrightarrow> numWorkers c' = workers \<and> p = [] \<and> l' = l)
       \<and> (\<forall>i\<in>set p. \<not> fatal i)
       \<and> (\<forall>cap q s. rtranclp step (p, fresh cap l') (q, s) \<longrightarrow>
            exit_status s = None \<and> panic_value s = None)"
proof -
  obtain l1 p1 where w: "Warn Sprint now l invalid_workers = (l1, p1)"
    by (cases "Warn Sprint now l invalid_workers")
  then obtain e where e: "p1 = HandleEntry l1 e" "Level e = WarnLevel"
    "Message e = Sprint invalid_workers"
    using log_at_shape [of now l WarnLevel "Sprint invalid_workers" l1 p1]
    by (auto simp: Warn_def)
  have zero: "c' = c\<lparr>buffer := sz, numWorkers := 1\<rparr> \<and> l' = l1 \<and> p = Println invalid_workers # p1"
    if "workers = 0"
    using set w that by (simp add: SetBuffersAndWorkers_def Let_def)
  have nonzero: "c' = c\<lparr>buffer := sz, numWorkers := workers\<rparr> \<and> l' = l \<and> p = []"
    if "workers \<noteq> 0"
    using set that by (simp add: SetBuffersAndWorkers_def Let_def)
  have nf: "\<forall>i\<in>set p. \<not> fatal i"
  proof (cases "workers = 0")
    case True
    then show ?thesis using zero e(1) HandleEntry_not_fatal by auto
  next
    case False
    then show ?thesis using nonzero by simp
  qed
  have alive: "exit_status s = None \<and> panic_value s = None"
    if "rtranclp step (p, fresh cap l') (q, s)" for cap q s
    using not_stopped [OF that nf] .
  have b: "buffer c' = sz" using zero nonzero by (cases "workers = 0") auto
  have z: "numWorkers c' = 1 \<and> (l', tl p) = Warn Sprint now l invalid_workers
            \<and> (\<exists>e. p = Println invalid_workers # HandleEntry l' e \<and> Level e = WarnLevel
                    \<and> Message e = Sprint invalid_workers)" if "workers = 0"
    using zero [OF that] w e by auto
  have n: "numWorkers c' = workers \<and> p = [] \<and> l' = l" if "workers \<noteq> 0"
    using nonzero [OF that] by simp
  show ?thesis using b z n nf alive by blast
qed

theorem SetBuffersAndWorkers_corrects_zero_witness:
  "numWorkers (fst (SetBuffersAndWorkers Sprint_one T0 two_handlers plain_console 16 0)) = 1
   \<and> buffer (fst (SetBuffersAndWorkers Sprint_one T0 two_handlers plain_console 16 0)) = 16
   \<and> hd (snd (snd (SetBuffersAndWorkers Sprint_one T0 two_handlers plain_console 16 0)))
       = Println invalid_workers
   \<and> numWorkers (fst (SetBuffersAndWorkers Sprint_one T0 two_handlers plain_console 16 3)) = 3"
proof -
  let ?a = "SetBuffersAndWorkers Sprint_one T0 two_handlers plain_console 16 0"
  let ?b = "SetBuffersAndWorkers Sprint_one T0 two_handlers plain_console 16 3"
  have a: "?a = (fst ?a, fst (snd ?a), snd (snd ?a))" by simp
  have b: "?b = (fst ?b, fst (snd ?b), snd (snd ?b))" by simp
  have "numWorkers (fst ?a) = 1 \<and> buffer (fst ?a) = 16
      \<and> (\<exists>e. snd (snd ?a) = Println invalid_workers # HandleEntry (fst (snd ?a)) e
              \<and> Level e = WarnLevel \<and> Message e = Sprint_one invalid_workers)"
    using SetBuffersAndWorkers_corrects_zero [OF a] by simp
  moreover have "numWorkers (fst ?b) = 3"
    using SetBuffersAndWorkers_corrects_zero [OF b] by simp
  ultimately show ?thesis by auto
qed

lemma Run_loop_length:
  "length (Run_loop x c i ws) = length ws + nat (sint (numWorkers c) + 1 - i)"
proof (induction x c i ws rule: Run_loop.induct)
  case (1 x c i ws)
  show ?case
  proof (cases "i \<le> sint (numWorkers c)")
    case True
    then show ?thesis using "1.IH" by (simp add: Run_loop.simps [of x c i ws])
  next
    case False
    then show ?thesis by (simp add: Run_loop.simps [of x c i ws])
  qed
qed

text \<open>
  Claim C4, evaluated on the console that \<^verbatim>\<open>New\<close> returns. Its
  configured worker count is 1 and its buffer size 0; \<^verbatim>\<open>Run\<close> makes the
  channel with capacity 0 and starts two workers, because the loop runs while
  \<open>i \<le> numWorkers\<close>.
\<close>

theorem Run_default_starts_two_workers:
  "Run x env_gopath sep max_chan (New defaultColors) =
     Inr (New defaultColors, 0,
          [handleLog x (New defaultColors), handleLog x (New defaultColors)])
   \<and> numWorkers (New defaultColors) = 1
   \<and> length [handleLog x (New defaultColors), handleLog x (New defaultColors)] = 2"
proof -
  let ?c = "New defaultColors"
  have n: "sint (numWorkers ?c) = 1" by (simp add: New_def)
  have "Run_loop x ?c 2 [handleLog x ?c, handleLog x ?c] = [handleLog x ?c, handleLog x ?c]"
    using n by (simp add: Run_loop.simps [of x ?c 2])
  then have "Run_loop x ?c 1 [handleLog x ?c] = [handleLog x ?c, handleLog x ?c]"
    using n by (simp add: Run_loop.simps [of x ?c 1])
  then have "Run_loop x ?c 0 [] = [handleLog x ?c, handleLog x ?c]"
    using n by (simp add: Run_loop.simps [of x ?c 0])
  moreover have "fileDisplay ?c = Lshortfile \<and> buffer ?c = 0 \<and> numWorkers ?c = 1"
    by (simp add: New_def)
  ultimately show ?thesis by (simp add: Run_def Let_def)
qed

section \<open>Short file names\<close>

lemma shortfile_loop_none:
  "\<forall>j. 0 < j \<and> j \<le> nat i \<longrightarrow> path ! j \<noteq> CHR ''/'' \<Longrightarrow> shortfile_loop path i = path"
proof (induction path i rule: shortfile_loop.induct)
  case (1 path i)
  show ?case
  proof (cases "i > 0")
    case True
    then have a: "path ! nat i \<noteq> CHR ''/''" using "1.prems" by simp
    have "\<forall>j. 0 < j \<and> j \<le> nat (i - 1) \<longrightarrow> path ! j \<noteq> CHR ''/''"
      using "1.prems" by auto
    then have "shortfile_loop path (i - 1) = path" using "1.IH" True a by simp
    then show ?thesis using True a by (simp add: shortfile_loop.simps [of path i])
  next
    case False
    then show ?thesis by (simp add: shortfile_loop.simps [of path i])
  qed
qed

lemma shortfile_loop_last:
  "0 < j \<Longrightarrow> j \<le> nat i \<Longrightarrow> path ! j = CHR ''/'' \<Longrightarrow>
   \<forall>k. j < k \<and> k \<le> nat i \<longrightarrow> path ! k \<noteq> CHR ''/'' \<Longrightarrow>
   shortfile_loop path i = drop (j + 1) path"
proof (induction path i rule: shortfile_loop.induct)
  case (1 path i)
  have pos: "i > 0" using "1.prems" by linarith
  show ?case
  proof (cases "path ! nat i = CHR ''/''")
    case True
    have "\<not> j < nat i"
    proof
      assume "j < nat i"
      then have "path ! nat i \<noteq> CHR ''/''" using "1.prems"(4) by blast
      then show False using True by simp
    qed
    then have "nat i = j" using "1.prems"(2) by linarith
    then have "nat (i + 1) = j + 1" using pos by linarith
    then show ?thesis using pos True by (simp add: shortfile_loop.simps [of path i])
  next
    case False
    then have "j \<noteq> nat i" using "1.prems" by auto
    then have le: "j \<le> nat (i - 1)" using "1.prems" by linarith
    have "\<forall>k. j < k \<and> k \<le> nat (i - 1) \<longrightarrow> path ! k \<noteq> CHR ''/''"
      using "1.prems" by auto
    then have "shortfile_loop path (i - 1) = drop (j + 1) path"
      using "1.IH" pos False "1.prems" le by simp
    then show ?thesis using pos False by (simp add: shortfile_loop.simps [of path i])
  qed
qed

text \<open>
  Claim C10. In short-filename mode the file is cut to what follows the last
  \<open>/\<close> that stands at an index strictly greater than 0. So a path whose only
  \<open>/\<close> is its first character, and a path with no \<open>/\<close> at all, is
  displayed unchanged.
\<close>

theorem shortfile_after_last_slash:
  "(\<forall>j. 0 < j \<and> j < length path \<and> path ! j = CHR ''/'' \<and>
        (\<forall>k. j < k \<and> k < length path \<longrightarrow> path ! k \<noteq> CHR ''/'')
        \<longrightarrow> shortfile path = drop (j + 1) path \<and>
            display_file (c\<lparr>fileDisplay := Lshortfile\<rparr>) path = Inr (drop (j + 1) path))
   \<and> ((\<forall>j. 0 < j \<and> j < length path \<longrightarrow> path ! j \<noteq> CHR ''/'')
        \<longrightarrow> shortfile path = path \<and>
            display_file (c\<lparr>fileDisplay := Lshortfile\<rparr>) path = Inr path)"
proof (intro conjI allI impI)
  fix j
  assume h: "0 < j \<and> j < length path \<and> path ! j = CHR ''/'' \<and>
    (\<forall>k. j < k \<and> k < length path \<longrightarrow> path ! k \<noteq> CHR ''/'')"
  then have n: "nat (int (length path) - 1) = length path - 1" by linarith
  have "shortfile_loop path (int (length path) - 1) = drop (j + 1) path"
  proof (rule shortfile_loop_last)
    show "0 < j" using h by simp
    show "j \<le> nat (int (length path) - 1)" using h n by linarith
    show "path ! j = CHR ''/''" using h by simp
    show "\<forall>k. j < k \<and> k \<le> nat (int (length path) - 1) \<longrightarrow> path ! k \<noteq> CHR ''/''"
      using h n by auto
  qed
  then show "shortfile path = drop (j + 1) path" by (simp add: shortfile_def)
  then show "display_file (c\<lparr>fileDisplay := Lshortfile\<rparr>) path = Inr (drop (j + 1) path)"
    by (simp add: display_file_def)
next
  assume h: "\<forall>j. 0 < j \<and> j < length path \<longrightarrow> path ! j \<noteq> CHR ''/''"
  have "\<forall>j. 0 < j \<and> j \<le> nat (int (length path) - 1) \<longrightarrow> path ! j \<noteq> CHR ''/''"
  proof (intro allI impI)
    fix j assume "0 < j \<and> j \<le> nat (int (length path) - 1)"
    then have "0 < j \<and> j < length path" by linarith
    then show "path ! j \<noteq> CHR ''/''" using h by blast
  qed
  then have "shortfile_loop path (int (length path) - 1) = path" by (rule shortfile_loop_none)
  then show "shortfile path = path" by (simp add: shortfile_def)
  then show "display_file (c\<lparr>fileDisplay := Lshortfile\<rparr>) path = Inr path"
    by (simp add: display_file_def)
qed

theorem shortfile_after_last_slash_witness:
  "shortfile ''a/b/c.go'' = ''c.go'' \<and> shortfile ''/main.go'' = ''/main.go''
   \<and> shortfile ''main.go'' = ''main.go''"
proof -
  have a: "0 < (3::nat) \<and> 3 < length ''a/b/c.go'' \<and> ''a/b/c.go'' ! 3 = CHR ''/'' \<and>
     (\<forall>k. 3 < k \<and> k < length ''a/b/c.go'' \<longrightarrow> ''a/b/c.go'' ! k \<noteq> CHR ''/'')"
  proof (intro conjI allI impI)
    fix k :: nat assume "3 < k \<and> k < length ''a/b/c.go''"
    then have "k = 4 \<or> k = 5 \<or> k = 6 \<or> k = 7" by auto
    then show "''a/b/c.go'' ! k \<noteq> CHR ''/''" by auto
  qed simp_all
  have b: "\<forall>j. 0 < j \<and> j < length ''/main.go'' \<longrightarrow> ''/main.go'' ! j \<noteq> CHR ''/''"
  proof (intro allI impI)
    fix j :: nat assume "0 < j \<and> j < length ''/main.go''"
    then have "j = 1 \<or> j = 2 \<or> j = 3 \<or> j = 4 \<or> j = 5 \<or> j = 6 \<or> j = 7" by auto
    then show "''/main.go'' ! j \<noteq> CHR ''/''" by auto
  qed
  have c: "\<forall>j. 0 < j \<and> j < length ''main.go'' \<longrightarrow> ''main.go'' ! j \<noteq> CHR ''/''"
  proof (intro allI impI)
    fix j :: nat assume "0 < j \<and> j < length ''main.go''"
    then have "j = 1 \<or> j = 2 \<or> j = 3 \<or> j = 4 \<or> j = 5 \<or> j = 6" by auto
    then show "''main.go'' ! j \<noteq> CHR ''/''" by auto
  qed
  have "shortfile ''a/b/c.go'' = drop (3 + 1) ''a/b/c.go''"
    using shortfile_after_last_slash [of "''a/b/c.go''" c0, THEN conjunct1, THEN spec, THEN mp, OF a]
    by (rule conjunct1)
  moreover have "shortfile ''/main.go'' = ''/main.go''"
    using shortfile_after_last_slash [of "''/main.go''" c0, THEN conjunct2, THEN mp, OF b]
    by (rule conjunct1)
  moreover have "shortfile ''main.go'' = ''main.go''"
    using shortfile_after_last_slash [of "''main.go''" c0, THEN conjunct2, THEN mp, OF c]
    by (rule conjunct1)
  ultimately show ?thesis by simp
qed

section \<open>The formatting round trip\<close>

lemma pad_loop_replicate: "pad_loop i n b = b @ replicate (nat (n - i)) CHR '' ''"
proof (induction i n b rule: pad_loop.induct)
  case (1 i n b)
  show ?case
  proof (cases "i < n")
    case True
    then have "nat (n - i) = Suc (nat (n - (i + 1)))" by linarith
    then show ?thesis using True "1.IH"
      by (simp add: pad_loop.simps [of i n b] replicate_append_same)
  next
    case False
    then show ?thesis by (simp add: pad_loop.simps [of i n b])
  qed
qed

lemma dec_digits_8080: "dec_digits 8080 = ''8080''"
  by (simp add: dec_digits.simps digit_char_def)

text \<open>
  Claim C5, as the code has it. The plain formatter pads the level name on the left: the
  padding loop runs before the name is appended. For the fixed Entry the output is the
  formatted timestamp, a space, the level name right-aligned in width 6 (two spaces, then
  \<^verbatim>\<open>INFO\<close>), a space, \<^verbatim>\<open>started\<close>,
  \<^verbatim>\<open> port=8080\<close> and a newline.
\<close>

theorem plain_info_started:
  "Level_String x InfoLevel = ''INFO'' \<Longrightarrow> displayColor c = False \<Longrightarrow>
   timestampFormat c = ''2006-01-02T15:04:05Z'' \<Longrightarrow>
   defaultFormatFunc x c () (started_entry T) =
     Inr (time_Format x T ''2006-01-02T15:04:05Z'' @ '' '' @ ''  INFO'' @ '' '' @ ''started''
          @ '' port=8080'' @ [CHR 0x0A])"
  by (simp add: defaultFormatFunc_def plain_formatter_def started_entry_def pad_loop_replicate
      AppendInt_def dec_digits_8080 Let_def numeral_2_eq_2)

theorem plain_info_started_witness:
  "defaultFormatFunc ext0 plain_console () (started_entry T0) =
     Inr (''2016-07-04T09:30:05Z   INFO started port=8080'' @ [CHR 0x0A])"
proof -
  have f: "Format_chunks T0 ''2006-01-02T15:04:05Z'' = ''2016-07-04T09:30:05Z''"
    by (simp add: Format_chunks.simps T0_def pad_dec_def dec_digits.simps digit_char_def)
  show ?thesis
    using plain_info_started [of ext0 plain_console T0] f
    by (simp add: ext0_def level_name_def plain_console_def)
qed

text \<open>
  Claim C5 as the spec words it, with the level name padded on the right
  (\<^verbatim>\<open>INFO\<close> and two spaces), fails on that Entry.
\<close>

theorem plain_info_started_counterexample:
  "defaultFormatFunc ext0 plain_console () (started_entry T0) \<noteq>
     Inr (time_Format ext0 T0 ''2006-01-02T15:04:05Z'' @ '' '' @ ''INFO  '' @ '' '' @ ''started''
          @ '' port=8080'' @ [CHR 0x0A])"
  by (simp add: defaultFormatFunc_def plain_formatter_def started_entry_def pad_loop_replicate
      AppendInt_def dec_digits_8080 Let_def numeral_2_eq_2 ext0_def level_name_def
      plain_console_def)

end
